theory Spec2Isabelle
  imports Main
begin

section \<open>The generic Stack of src/C++/stack.hh\<close>

text \<open>
  The class keeps three members: \<^verbatim>\<open>T *_base\<close> (the owned array, or \<^verbatim>\<open>nullptr\<close>),
  \<^verbatim>\<open>T *_pointer\<close> (one past the top element) and \<^verbatim>\<open>unsigned _capacity\<close>.
  The arrays live in a heap of their own, because the copy operations allocate,
  copy and release them, and what they do depends on which array is still alive.

  \<^item> An address is the index of an array in the heap; a released array leaves
    \<open>None\<close> behind, and addresses are never handed out twice.
  \<^item> A slot of an array is \<open>Some v\<close> once the program has written the value \<open>v\<close>
    there, and \<open>None\<close> while it holds nothing the program wrote (fresh from
    \<^verbatim>\<open>new T[n]\<close>, or torn by a copy that stopped inside the element).
  \<^item> \<^verbatim>\<open>_pointer\<close> is kept as its offset from \<^verbatim>\<open>_base\<close>, in elements.
  \<^item> \<^verbatim>\<open>unsigned\<close> values are naturals below \<open>2 ^ 32\<close> and \<^verbatim>\<open>int\<close> values
    are integers; the conversions between them are written out below.
  \<^item> \<^verbatim>\<open>new\<close> is taken to succeed.
\<close>

subsection \<open>Outcomes of a member function\<close>

datatype error = OverflowError | UnderflowError

text \<open>
  A call returns a value and leaves a state, or throws and leaves the state the
  object had at the \<^verbatim>\<open>throw\<close>, or has no defined behaviour (an access outside
  a live array, a read of a slot that holds no value, a signed overflow).
\<close>

datatype ('r, 's) outcome = Return 'r 's | Throw error 's | Undefined

fun and_then :: "('r, 's) outcome \<Rightarrow> ('r \<Rightarrow> 's \<Rightarrow> ('q, 's) outcome) \<Rightarrow> ('q, 's) outcome" where
  "and_then (Return r s) f = f r s"
| "and_then (Throw e s) f = Throw e s"
| "and_then Undefined f = Undefined"

subsection \<open>Arrays and the heap\<close>

type_synonym 'a array = "'a option list"
type_synonym 'a heap = "'a array option list"

definition live :: "'a heap \<Rightarrow> nat \<Rightarrow> 'a array option" where
  "live h a = (if a < length h then h ! a else None)"

text \<open>\<^verbatim>\<open>new T[n]\<close>: a fresh array of \<open>n\<close> slots, none of them written yet.\<close>

definition new_array :: "nat \<Rightarrow> 'a heap \<Rightarrow> nat \<times> 'a heap" where
  "new_array n h = (length h, h @ [Some (replicate n None)])"

text \<open>\<^verbatim>\<open>delete[] p\<close> for a non-null \<open>p\<close>: defined only on a live array.\<close>

definition delete_array :: "nat \<Rightarrow> 'a heap \<Rightarrow> 'a heap option" where
  "delete_array a h = (case live h a of None \<Rightarrow> None | Some buf \<Rightarrow> Some (h[a := None]))"

text \<open>
  \<^verbatim>\<open>std::memcpy(dst, src, n)\<close> on arrays of elements of \<open>szT\<close> bytes each
  (\<open>szT\<close> is \<^verbatim>\<open>sizeof(T)\<close>). Both arrays must be live and hold \<open>n\<close> bytes.
  The first \<open>n div szT\<close> elements arrive whole; when \<open>n\<close> stops inside an element,
  that slot is torn.
\<close>

definition copy_bytes :: "nat \<Rightarrow> 'a array \<Rightarrow> 'a array \<Rightarrow> nat \<Rightarrow> 'a array" where
  "copy_bytes szT dst src n =
     (let k = n div szT in
      if n mod szT = 0 then take k src @ drop k dst
      else take k src @ [None] @ drop (Suc k) dst)"

definition memcpy :: "nat \<Rightarrow> 'a heap \<Rightarrow> nat \<Rightarrow> nat \<Rightarrow> nat \<Rightarrow> 'a heap option" where
  "memcpy szT h dst src n =
     (case live h dst of None \<Rightarrow> None
      | Some d \<Rightarrow>
         (case live h src of None \<Rightarrow> None
          | Some s \<Rightarrow>
             if n \<le> length d * szT \<and> n \<le> length s * szT
             then Some (h[dst := Some (copy_bytes szT d s n)])
             else None))"

subsection \<open>The object\<close>

record Stack =
  m_base :: "nat option"
  m_pointer :: nat
  m_capacity :: nat

type_synonym 'a state = "'a heap \<times> Stack"

text \<open>The conversion \<^verbatim>\<open>(unsigned)\<close>, the conversion \<^verbatim>\<open>(int)\<close> of an unsigned
  value, and the negation of an \<^verbatim>\<open>int\<close>, which overflows at \<^verbatim>\<open>INT_MIN\<close>.\<close>

definition to_unsigned :: "nat \<Rightarrow> nat" where
  "to_unsigned u = u mod 2 ^ 32"

definition to_int :: "nat \<Rightarrow> int" where
  "to_int u = (if u mod 2 ^ 32 < 2 ^ 31 then int (u mod 2 ^ 32) else int (u mod 2 ^ 32) - 2 ^ 32)"

definition negate :: "int \<Rightarrow> int option" where
  "negate x = (if x = - (2 ^ 31) then None else Some (- x))"

definition size_stk :: "Stack \<Rightarrow> nat" where
  "size_stk s = to_unsigned (m_pointer s)"

definition capacity :: "Stack \<Rightarrow> nat" where
  "capacity s = m_capacity s"

text \<open>The array behind \<^verbatim>\<open>_base\<close>, when there is a live one.\<close>

definition buffer :: "'a state \<Rightarrow> 'a array option" where
  "buffer st = (case m_base (snd st) of None \<Rightarrow> None | Some a \<Rightarrow> live (fst st) a)"

text \<open>Reading \<^verbatim>\<open>this->_pointer[i]\<close> (\<open>deref\<close>) and assigning to it (\<open>store\<close>).\<close>

definition deref :: "'a state \<Rightarrow> int \<Rightarrow> 'a option" where
  "deref st i =
     (case buffer st of None \<Rightarrow> None
      | Some buf \<Rightarrow>
         (let k = int (m_pointer (snd st)) + i
          in if 0 \<le> k \<and> k < int (length buf) then buf ! nat k else None))"

definition store :: "'a state \<Rightarrow> int \<Rightarrow> 'a \<Rightarrow> 'a state option" where
  "store st i v =
     (case m_base (snd st) of None \<Rightarrow> None
      | Some a \<Rightarrow>
         (case live (fst st) a of None \<Rightarrow> None
          | Some buf \<Rightarrow>
             (let k = int (m_pointer (snd st)) + i
              in if 0 \<le> k \<and> k < int (length buf)
                 then Some ((fst st)[a := Some (buf[nat k := Some v])], snd st)
                 else None)))"

subsection \<open>Storage management\<close>

definition allocate :: "nat \<Rightarrow> nat \<Rightarrow> 'a state \<Rightarrow> (unit, 'a state) outcome" where
  "allocate szT n st =
     (let (memory, h1) = new_array n (fst st);
          this = snd st;
          offset = size_stk this;
          this' = this\<lparr>m_base := Some memory, m_pointer := offset, m_capacity := n\<rparr>
      in case m_base this of
           None \<Rightarrow> Return () (h1, this')
         | Some b \<Rightarrow>
            (case memcpy szT h1 memory b
                    (if m_capacity this > n then n else m_capacity this * szT) of
               None \<Rightarrow> Undefined
             | Some h2 \<Rightarrow>
                (case delete_array b h2 of
                   None \<Rightarrow> Undefined
                 | Some h3 \<Rightarrow> Return () (h3, this'))))"

text \<open>
  The second copy of the class (src/unnamed/part_002) declares sizes as
  \<^verbatim>\<open>size_t\<close> and parenthesises the length of the copy:
  \<^verbatim>\<open>(this->_capacity > size ? size : this->_capacity) * sizeof(T)\<close>.
\<close>

definition to_size_t :: "nat \<Rightarrow> nat" where
  "to_size_t u = u mod 2 ^ 64"

definition allocate_2 :: "nat \<Rightarrow> nat \<Rightarrow> 'a state \<Rightarrow> (unit, 'a state) outcome" where
  "allocate_2 szT n st =
     (let (memory, h1) = new_array n (fst st);
          this = snd st;
          offset = to_size_t (m_pointer this);
          this' = this\<lparr>m_base := Some memory, m_pointer := offset, m_capacity := n\<rparr>
      in case m_base this of
           None \<Rightarrow> Return () (h1, this')
         | Some b \<Rightarrow>
            (case memcpy szT h1 memory b
                    ((if m_capacity this > n then n else m_capacity this) * szT) of
               None \<Rightarrow> Undefined
             | Some h2 \<Rightarrow>
                (case delete_array b h2 of
                   None \<Rightarrow> Undefined
                 | Some h3 \<Rightarrow> Return () (h3, this'))))"

definition Stack_new :: "nat \<Rightarrow> nat \<Rightarrow> 'a heap \<Rightarrow> (unit, 'a state) outcome" where
  "Stack_new szT n h =
     allocate szT n (h, \<lparr>m_base = None, m_pointer = 0, m_capacity = 0\<rparr>)"

text \<open>The destructor: \<^verbatim>\<open>delete[] this->_base\<close>, which does nothing on \<^verbatim>\<open>nullptr\<close>.\<close>

definition destroy :: "'a state \<Rightarrow> 'a heap option" where
  "destroy st = (case m_base (snd st) of None \<Rightarrow> Some (fst st) | Some b \<Rightarrow> delete_array b (fst st))"

text \<open>
  \<^verbatim>\<open>copy() const\<close> builds the local \<^verbatim>\<open>stack\<close> and returns it; the returned object is
  the local itself (the compiler elides the copy), so no constructor runs on return.
\<close>

definition copy :: "nat \<Rightarrow> 'a heap \<Rightarrow> Stack \<Rightarrow> (Stack, 'a heap) outcome" where
  "copy szT h this =
     (case Stack_new szT (capacity this) h of
        Return u st1 \<Rightarrow>
          (case (m_base (snd st1), m_base this) of
             (Some d, Some b) \<Rightarrow>
               (case memcpy szT (fst st1) d b (capacity this * szT) of
                  None \<Rightarrow> Undefined
                | Some h2 \<Rightarrow>
                    Return ((snd st1)\<lparr>m_pointer := m_pointer (snd st1) + size_stk this\<rparr>) h2)
           | _ \<Rightarrow> Undefined)
      | Throw e st1 \<Rightarrow> Throw e (fst st1)
      | Undefined \<Rightarrow> Undefined)"

text \<open>
  \<^verbatim>\<open>operator =(const Stack &stack)\<close> on the object of the state. The argument is passed
  as the members of \<^verbatim>\<open>stack\<close>; for a self-assignment they are the members of the
  object itself, which the function does not write before it has read them. The
  local \<^verbatim>\<open>copy\<close> is destroyed when the function returns.
\<close>

definition operator_assign :: "nat \<Rightarrow> 'a state \<Rightarrow> Stack \<Rightarrow> (unit, 'a state) outcome" where
  "operator_assign szT st stack =
     (let this = snd st
      in case (case m_base this of None \<Rightarrow> Some (fst st) | Some b \<Rightarrow> delete_array b (fst st)) of
           None \<Rightarrow> Undefined
         | Some h1 \<Rightarrow>
            (case copy szT h1 stack of
               Return cp h2 \<Rightarrow>
                 (let this' = this\<lparr>m_base := m_base cp, m_pointer := m_pointer cp,
                                   m_capacity := m_capacity cp\<rparr>
                  in case destroy (h2, cp) of
                       None \<Rightarrow> Undefined
                     | Some h3 \<Rightarrow> Return () (h3, this'))
             | Throw e h2 \<Rightarrow> Throw e (h2, this)
             | Undefined \<Rightarrow> Undefined))"

definition clear :: "'a state \<Rightarrow> (unit, 'a state) outcome" where
  "clear st = Return () (fst st, (snd st)\<lparr>m_pointer := 0\<rparr>)"

subsection \<open>Stack operations\<close>

definition push :: "'a \<Rightarrow> 'a state \<Rightarrow> (unit, 'a state) outcome" where
  "push x st =
     (if size_stk (snd st) \<ge> capacity (snd st) then Throw OverflowError st
      else case store st 0 x of
             None \<Rightarrow> Undefined
           | Some st' \<Rightarrow> Return () (fst st', (snd st')\<lparr>m_pointer := m_pointer (snd st') + 1\<rparr>))"

definition pop :: "'a state \<Rightarrow> ('a, 'a state) outcome" where
  "pop st =
     (if size_stk (snd st) \<le> 0 then Throw UnderflowError st
      else let st' = (fst st, (snd st)\<lparr>m_pointer := m_pointer (snd st) - 1\<rparr>)
           in case deref st' 0 of None \<Rightarrow> Undefined | Some v \<Rightarrow> Return v st')"

definition pick :: "nat \<Rightarrow> 'a state \<Rightarrow> (unit, 'a state) outcome" where
  "pick n st =
     (if size_stk (snd st) \<le> n then Throw UnderflowError st
      else case negate (to_int (to_unsigned (n + 1))) of
             None \<Rightarrow> Undefined
           | Some i \<Rightarrow> (case deref st i of None \<Rightarrow> Undefined | Some v \<Rightarrow> push v st))"

definition drop_stk :: "'a state \<Rightarrow> (unit, 'a state) outcome" where
  "drop_stk st = and_then (pop st) (\<lambda>x st'. Return () st')"

text \<open>The loop of \<^verbatim>\<open>roll\<close>: \<^verbatim>\<open>for(int i = ...; i <= -2; ++i) _pointer[i] = _pointer[i+1];\<close>\<close>

function roll_loop :: "int \<Rightarrow> 'a state \<Rightarrow> (unit, 'a state) outcome" where
  "roll_loop i st =
     (if i \<le> - 2
      then (case deref st (i + 1) of
              None \<Rightarrow> Undefined
            | Some v \<Rightarrow> (case store st i v of None \<Rightarrow> Undefined | Some st' \<Rightarrow> roll_loop (i + 1) st'))
      else Return () st)"
  by pat_completeness auto
termination
  by (relation "measure (\<lambda>(i, st). nat (- i))") auto

declare roll_loop.simps [simp del]

definition roll :: "nat \<Rightarrow> 'a state \<Rightarrow> (unit, 'a state) outcome" where
  "roll n st =
     and_then (pick n st) (\<lambda>u st1.
       case negate (to_int (to_unsigned (n + 2))) of
         None \<Rightarrow> Undefined
       | Some i \<Rightarrow> and_then (roll_loop i st1) (\<lambda>u st2. drop_stk st2))"

definition peek :: "'a state \<Rightarrow> ('a, 'a state) outcome" where
  "peek st = and_then (pop st) (\<lambda>x st1. and_then (push x st1) (\<lambda>u st2. Return x st2))"

definition dup :: "'a state \<Rightarrow> (unit, 'a state) outcome" where
  "dup st = pick 0 st"

definition swap :: "'a state \<Rightarrow> (unit, 'a state) outcome" where
  "swap st = roll 1 st"

definition over :: "'a state \<Rightarrow> (unit, 'a state) outcome" where
  "over st = pick 1 st"

definition rot :: "'a state \<Rightarrow> (unit, 'a state) outcome" where
  "rot st = roll 2 st"

definition nip :: "'a state \<Rightarrow> (unit, 'a state) outcome" where
  "nip st = and_then (swap st) (\<lambda>u st1. drop_stk st1)"

definition tuck :: "'a state \<Rightarrow> (unit, 'a state) outcome" where
  "tuck st = and_then (swap st) (\<lambda>u st1. over st1)"

subsection \<open>Sequences of calls\<close>

fun push_all :: "'a list \<Rightarrow> 'a state \<Rightarrow> (unit, 'a state) outcome" where
  "push_all [] st = Return () st"
| "push_all (x # xs) st = and_then (push x st) (\<lambda>u st'. push_all xs st')"

fun pop_n :: "nat \<Rightarrow> 'a state \<Rightarrow> ('a list, 'a state) outcome" where
  "pop_n 0 st = Return [] st"
| "pop_n (Suc k) st =
     and_then (pop st) (\<lambda>x st'. and_then (pop_n k st') (\<lambda>xs st''. Return (x # xs) st''))"

fun peek_n :: "nat \<Rightarrow> 'a state \<Rightarrow> ('a list, 'a state) outcome" where
  "peek_n 0 st = Return [] st"
| "peek_n (Suc k) st =
     and_then (peek st) (\<lambda>x st'. and_then (peek_n k st') (\<lambda>xs st''. Return (x # xs) st''))"

subsection \<open>States and their contents\<close>

text \<open>
  A well-formed state is what the class means to maintain: \<^verbatim>\<open>_base\<close> is a live array
  of \<^verbatim>\<open>_capacity\<close> slots, \<^verbatim>\<open>_pointer\<close> lies inside it or one past its end, the
  capacity is an \<^verbatim>\<open>unsigned\<close> value, and every slot below \<^verbatim>\<open>_pointer\<close> has been
  written.
\<close>

definition well_formed :: "'a state \<Rightarrow> bool" where
  "well_formed st =
     (case buffer st of None \<Rightarrow> False
      | Some buf \<Rightarrow>
          length buf = m_capacity (snd st) \<and> m_pointer (snd st) \<le> m_capacity (snd st) \<and>
          m_capacity (snd st) < 2 ^ 32 \<and>
          list_all (\<lambda>x. x \<noteq> None) (take (m_pointer (snd st)) buf))"

text \<open>The elements of the stack, bottom first: the values of the slots below the top.\<close>

definition elements :: "'a state \<Rightarrow> 'a list" where
  "elements st =
     (case buffer st of None \<Rightarrow> []
      | Some buf \<Rightarrow> map the (take (size_stk (snd st)) buf))"

subsection \<open>Failures\<close>

text \<open>
  A call raises \<open>e\<close> when it throws \<open>e\<close>, in whatever state; a call is atomic on
  \<open>st\<close> when, if it throws, the state at the throw is \<open>st\<close>.
\<close>

definition raises :: "('r, 's) outcome \<Rightarrow> error \<Rightarrow> bool" where
  "raises out e = (case out of Throw e' s \<Rightarrow> e' = e | _ \<Rightarrow> False)"

definition atomic :: "('r, 's) outcome \<Rightarrow> 's \<Rightarrow> bool" where
  "atomic out st = (case out of Throw e s \<Rightarrow> s = st | _ \<Rightarrow> True)"

subsection \<open>Some concrete states\<close>

text \<open>\<^verbatim>\<open>Stack<T> s(2); s.push(1); s.push(2);\<close> on an empty heap: a full stack.\<close>

definition full_stack :: "int state" where
  "full_stack = ([Some [Some 1, Some 2]], \<lparr>m_base = Some 0, m_pointer = 2, m_capacity = 2\<rparr>)"

text \<open>\<^verbatim>\<open>Stack<T> s(3); s.push(1); s.push(2);\<close>: one free slot.\<close>

definition roomy_stack :: "int state" where
  "roomy_stack = ([Some [Some 1, Some 2, None]], \<lparr>m_base = Some 0, m_pointer = 2, m_capacity = 3\<rparr>)"

text \<open>\<^verbatim>\<open>Stack<T> s(3);\<close> on an empty heap, and the same after \<^verbatim>\<open>push\<close> of 1, 2, 3.\<close>

definition empty_stack_3 :: "int state" where
  "empty_stack_3 = ([Some [None, None, None]], \<lparr>m_base = Some 0, m_pointer = 0, m_capacity = 3\<rparr>)"

definition full_stack_3 :: "int state" where
  "full_stack_3 =
     ([Some [Some 1, Some 2, Some 3]], \<lparr>m_base = Some 0, m_pointer = 3, m_capacity = 3\<rparr>)"

text \<open>\<^verbatim>\<open>Stack<T> s(4);\<close> on an empty heap.\<close>

definition empty_stack_4 :: "int state" where
  "empty_stack_4 =
     ([Some [None, None, None, None]], \<lparr>m_base = Some 0, m_pointer = 0, m_capacity = 4\<rparr>)"

text \<open>The full stack of two elements after \<^verbatim>\<open>allocate(1)\<close>, for a \<^verbatim>\<open>T\<close> of one byte.\<close>

definition shrunk_stack :: "int state" where
  "shrunk_stack = ([None, Some [Some 1]], \<lparr>m_base = Some 1, m_pointer = 2, m_capacity = 1\<rparr>)"

text \<open>The full stack of three elements after \<^verbatim>\<open>allocate(2)\<close>, for a \<^verbatim>\<open>T\<close> of four bytes.\<close>

definition torn_stack :: "int state" where
  "torn_stack = ([None, Some [None, None]], \<lparr>m_base = Some 1, m_pointer = 3, m_capacity = 2\<rparr>)"

text \<open>
  What the loop of \<^verbatim>\<open>roll\<close> does to the array: \<open>k\<close> assignments
  \<open>buf[lo] = buf[lo + 1]\<close>, for \<open>lo\<close> going up.
\<close>

fun shift_down :: "'a list \<Rightarrow> nat \<Rightarrow> nat \<Rightarrow> 'a list" where
  "shift_down buf lo 0 = buf"
| "shift_down buf lo (Suc k) = shift_down (buf[lo := buf ! Suc lo]) (Suc lo) k"

section \<open>Well-formed states\<close>

lemma well_formedE:
  assumes "well_formed st"
  obtains h a buf p c where
    "st = (h, \<lparr>m_base = Some a, m_pointer = p, m_capacity = c\<rparr>)"
    "a < length h" "h ! a = Some buf" "length buf = c" "p \<le> c" "c < 2 ^ 32"
    "\<forall>i<p. \<exists>v. buf ! i = Some v"
proof -
  obtain h s where st: "st = (h, s)" by (cases st)
  obtain b p c where s: "s = \<lparr>m_base = b, m_pointer = p, m_capacity = c\<rparr>" by (cases s) auto
  from assms st s obtain a where b: "b = Some a"
    by (cases b) (auto simp: well_formed_def buffer_def)
  from assms st s b obtain buf where 1: "a < length h" "h ! a = Some buf"
    by (auto simp: well_formed_def buffer_def live_def split: if_splits option.splits)
  with assms st s b have 2: "length buf = c" "p \<le> c" "c < 2 ^ 32"
    "list_all (\<lambda>x. x \<noteq> None) (take p buf)"
    by (auto simp: well_formed_def buffer_def live_def)
  have "\<exists>v. buf ! i = Some v" if "i < p" for i
  proof -
    from that 2 have "i < length (take p buf)" by simp
    with 2(4) have "take p buf ! i \<noteq> None" by (simp add: list_all_length)
    with that show ?thesis by simp
  qed
  then have "\<forall>i<p. \<exists>v. buf ! i = Some v" by blast
  with st s b 1 2 show thesis by (intro that) auto
qed

lemma well_formedI:
  assumes "a < length h" "h ! a = Some buf" "length buf = c" "p \<le> c" "c < 2 ^ 32"
    "\<And>i. i < p \<Longrightarrow> buf ! i \<noteq> None"
  shows "well_formed (h, \<lparr>m_base = Some a, m_pointer = p, m_capacity = c\<rparr>)"
  using assms by (auto simp: well_formed_def buffer_def live_def list_all_length)

lemma size_stk_simp: "p < 2 ^ 32 \<Longrightarrow> size_stk \<lparr>m_base = b, m_pointer = p, m_capacity = c\<rparr> = p"
  by (simp add: size_stk_def to_unsigned_def)

lemma elements_simp:
  assumes "a < length h" "h ! a = Some buf" "p < 2 ^ 32"
  shows "elements (h, \<lparr>m_base = Some a, m_pointer = p, m_capacity = c\<rparr>) = map the (take p buf)"
  using assms by (simp add: elements_def buffer_def live_def size_stk_simp)

lemma to_int_small: "u < 2 ^ 31 \<Longrightarrow> to_int (to_unsigned u) = int u"
  by (simp add: to_int_def to_unsigned_def)

lemma negate_small: "0 \<le> x \<Longrightarrow> negate x = Some (- x)"
  by (simp add: negate_def)

section \<open>The operations on an explicit state\<close>

lemma deref_eq:
  assumes "a < length h" "h ! a = Some buf" "j < length buf" "int q + i = int j"
  shows "deref (h, \<lparr>m_base = Some a, m_pointer = q, m_capacity = c\<rparr>) i = buf ! j"
  using assms by (simp add: deref_def buffer_def live_def)

lemma store_eq:
  assumes "a < length h" "h ! a = Some buf" "j < length buf" "int q + i = int j"
  shows "store (h, \<lparr>m_base = Some a, m_pointer = q, m_capacity = c\<rparr>) i v =
           Some (h[a := Some (buf[j := Some v])], \<lparr>m_base = Some a, m_pointer = q, m_capacity = c\<rparr>)"
  using assms by (simp add: store_def live_def)

lemma push_eq:
  assumes "a < length h" "h ! a = Some buf" "length buf = c" "p < c" "c < 2 ^ 32"
  shows "push x (h, \<lparr>m_base = Some a, m_pointer = p, m_capacity = c\<rparr>) =
           Return () (h[a := Some (buf[p := Some x])], \<lparr>m_base = Some a, m_pointer = p + 1, m_capacity = c\<rparr>)"
  using assms store_eq[OF assms(1,2), of p p 0 c x]
  by (simp add: push_def size_stk_simp capacity_def)

lemma pop_eq:
  assumes "a < length h" "h ! a = Some buf" "length buf = c" "0 < p" "p \<le> c" "c < 2 ^ 32"
    "buf ! (p - 1) = Some v"
  shows "pop (h, \<lparr>m_base = Some a, m_pointer = p, m_capacity = c\<rparr>) =
           Return v (h, \<lparr>m_base = Some a, m_pointer = p - 1, m_capacity = c\<rparr>)"
  using assms deref_eq[OF assms(1,2), of "p - 1" "p - 1" 0 c]
  by (simp add: pop_def size_stk_simp)

lemma pick_eq:
  assumes "a < length h" "h ! a = Some buf" "length buf = c" "n < p" "p < c" "c < 2 ^ 32"
    "n + 1 < 2 ^ 31" "buf ! (p - 1 - n) = Some v"
  shows "pick n (h, \<lparr>m_base = Some a, m_pointer = p, m_capacity = c\<rparr>) =
           Return () (h[a := Some (buf[p := Some v])], \<lparr>m_base = Some a, m_pointer = p + 1, m_capacity = c\<rparr>)"
proof -
  have "int p + - int (n + 1) = int (p - 1 - n)" using assms(4) by simp
  from deref_eq[OF assms(1,2) _ this, of c] assms
  have "deref (h, \<lparr>m_base = Some a, m_pointer = p, m_capacity = c\<rparr>) (- int (n + 1)) = Some v"
    by simp
  with assms push_eq[OF assms(1,2,3,5,6), of v] show ?thesis
    by (simp add: pick_def size_stk_simp to_int_small negate_small del: of_nat_add of_nat_Suc)
qed

lemma roll_loop_eq:
  assumes "a < length h" "h ! a = Some buf" "k < q" "q \<le> length buf"
    "\<forall>j. q - k \<le> j \<and> j < q \<longrightarrow> buf ! j \<noteq> None"
  shows "roll_loop (- int k - 1) (h, \<lparr>m_base = Some a, m_pointer = q, m_capacity = c\<rparr>) =
           Return () (h[a := Some (shift_down buf (q - 1 - k) k)],
                      \<lparr>m_base = Some a, m_pointer = q, m_capacity = c\<rparr>)"
  using assms
proof (induction k arbitrary: h buf)
  case 0
  then have "h[a := Some buf] = h" by (simp add: list_update_same_conv)
  then show ?case by (subst roll_loop.simps) simp
next
  case (Suc k)
  let ?lo = "q - 1 - Suc k"
  let ?buf1 = "buf[?lo := buf ! Suc ?lo]"
  let ?h1 = "h[a := Some ?buf1]"
  from Suc.prems have lo: "Suc ?lo = q - 1 - k" "Suc ?lo < length buf" "?lo < length buf" by auto
  from Suc.prems obtain v where v: "buf ! Suc ?lo = Some v" 
    using lo by (cases "buf ! Suc ?lo") auto
  have i1: "int q + (- int (Suc k) - 1 + 1) = int (Suc ?lo)" using Suc.prems by simp
  have i0: "int q + (- int (Suc k) - 1) = int ?lo" using Suc.prems by simp
  have d: "deref (h, \<lparr>m_base = Some a, m_pointer = q, m_capacity = c\<rparr>) (- int (Suc k) - 1 + 1) = Some v"
    using deref_eq[OF Suc.prems(1,2) lo(2) i1, of c] v by simp
  have s: "store (h, \<lparr>m_base = Some a, m_pointer = q, m_capacity = c\<rparr>) (- int (Suc k) - 1) v =
             Some (?h1, \<lparr>m_base = Some a, m_pointer = q, m_capacity = c\<rparr>)"
    using store_eq[OF Suc.prems(1,2) lo(3) i0, of c v] v by simp
  have IH: "roll_loop (- int k - 1) (?h1, \<lparr>m_base = Some a, m_pointer = q, m_capacity = c\<rparr>) =
              Return () (?h1[a := Some (shift_down ?buf1 (q - 1 - k) k)],
                         \<lparr>m_base = Some a, m_pointer = q, m_capacity = c\<rparr>)"
  proof (rule Suc.IH)
    show "a < length ?h1" using Suc.prems by simp
    show "?h1 ! a = Some ?buf1" using Suc.prems by simp
    show "k < q" using Suc.prems by simp
    show "q \<le> length ?buf1" using Suc.prems by simp
    show "\<forall>j. q - k \<le> j \<and> j < q \<longrightarrow> ?buf1 ! j \<noteq> None"
      using Suc.prems by (auto simp: nth_list_update)
  qed
  have step: "- int (Suc k) - 1 + 1 = - int k - 1" by simp
  have le: "- int (Suc k) - 1 \<le> - 2" by simp
  have "roll_loop (- int (Suc k) - 1) (h, \<lparr>m_base = Some a, m_pointer = q, m_capacity = c\<rparr>) =
          roll_loop (- int (Suc k) - 1 + 1) (?h1, \<lparr>m_base = Some a, m_pointer = q, m_capacity = c\<rparr>)"
    by (subst roll_loop.simps) (simp only: le if_True d s option.case)
  also have "\<dots> = Return () (?h1[a := Some (shift_down ?buf1 (q - 1 - k) k)],
                         \<lparr>m_base = Some a, m_pointer = q, m_capacity = c\<rparr>)"
    by (simp only: step IH)
  also have "\<dots> = Return () (h[a := Some (shift_down buf (q - 1 - Suc k) (Suc k))],
                         \<lparr>m_base = Some a, m_pointer = q, m_capacity = c\<rparr>)"
    by (simp only: shift_down.simps lo(1) list_update_overwrite)
  finally show ?case .
qed

section \<open>The rotation\<close>

lemma length_shift_down: "length (shift_down buf lo k) = length buf"
  by (induction k arbitrary: buf lo) simp_all

lemma nth_shift_down:
  "lo + k < length buf \<Longrightarrow> j < length buf \<Longrightarrow>
     shift_down buf lo k ! j = (if lo \<le> j \<and> j < lo + k then buf ! Suc j else buf ! j)"
proof (induction k arbitrary: buf lo)
  case 0
  then show ?case by auto
next
  case (Suc k)
  from Suc.prems have "Suc lo + k < length (buf[lo := buf ! Suc lo])" "j < length (buf[lo := buf ! Suc lo])"
    by simp_all
  from Suc.IH[OF this] Suc.prems show ?case
    by (cases "j = lo") (auto simp: nth_list_update)
qed

lemma roll_eq:
  assumes "a < length h" "h ! a = Some buf" "length buf = c" "n < p" "p < c" "c < 2 ^ 32"
    "n + 2 < 2 ^ 31" "\<forall>i<p. \<exists>v. buf ! i = Some v"
  shows "roll n (h, \<lparr>m_base = Some a, m_pointer = p, m_capacity = c\<rparr>) =
           Return () (h[a := Some (shift_down (buf[p := buf ! (p - 1 - n)]) (p - 1 - n) (Suc n))],
                      \<lparr>m_base = Some a, m_pointer = p, m_capacity = c\<rparr>)"
proof -
  from assms(4) have "p - 1 - n < p" by simp
  with assms(8) obtain v where v: "buf ! (p - 1 - n) = Some v" by blast
  let ?buf1 = "buf[p := Some v]"
  let ?h1 = "h[a := Some ?buf1]"
  let ?buf2 = "shift_down ?buf1 (p - 1 - n) (Suc n)"
  let ?s1 = "\<lparr>m_base = Some a, m_pointer = p + 1, m_capacity = c\<rparr>"
  from assms(7) have n1: "n + 1 < 2 ^ 31" by simp
  have 1: "pick n (h, \<lparr>m_base = Some a, m_pointer = p, m_capacity = c\<rparr>) = Return () (?h1, ?s1)"
    by (rule pick_eq[OF assms(1,2,3,4,5,6) n1 v])
  have 2: "negate (to_int (to_unsigned (n + 2))) = Some (- int (n + 1) - 1)"
    using assms(7) by (simp add: to_int_small negate_small)
  have rd: "\<forall>j. (p + 1) - (n + 1) \<le> j \<and> j < p + 1 \<longrightarrow> ?buf1 ! j \<noteq> None"
    using assms(3,5,8) by (auto simp: nth_list_update)
  have 3: "roll_loop (- int (n + 1) - 1) (?h1, ?s1) = Return () (h[a := Some ?buf2], ?s1)"
    using roll_loop_eq[of a ?h1 ?buf1 "n + 1" "p + 1" c] assms(1,3,4,5) rd
    by (simp del: shift_down.simps)
  have top: "?buf2 ! p = Some v"
    using assms(3,4,5) by (simp add: nth_shift_down del: shift_down.simps)
  have 4: "pop (h[a := Some ?buf2], ?s1) =
             Return v (h[a := Some ?buf2], \<lparr>m_base = Some a, m_pointer = p, m_capacity = c\<rparr>)"
    using pop_eq[of a "h[a := Some ?buf2]" ?buf2 c "p + 1" v] assms(1,3,5,6) top
    by (simp add: length_shift_down del: shift_down.simps)
  show ?thesis
    by (simp only: roll_def 1 and_then.simps 2 option.case 3 drop_stk_def 4 v list_update_overwrite)
qed

lemma roll_elements:
  assumes "length buf = c" "n < p" "p < c" "buf ! (p - 1 - n) = Some v"
  shows "map the (take p (shift_down (buf[p := Some v]) (p - 1 - n) (Suc n))) =
           take (p - 1 - n) (map the (take p buf)) @ drop (p - n) (map the (take p buf)) @ [v]"
    (is "?l = ?r")
proof (rule nth_equalityI)
  show "length ?l = length ?r" using assms by (simp add: length_shift_down)
next
  fix j assume "j < length ?l"
  with assms have j: "j < p" by (simp add: length_shift_down)
  consider "j < p - 1 - n" | "p - 1 - n \<le> j" "j < p - 1" | "j = p - 1" using j by linarith
  then show "?l ! j = ?r ! j"
  proof cases
    case 1
    with assms j show ?thesis by (simp add: length_shift_down nth_shift_down nth_append del: shift_down.simps)
  next
    case 2
    then have "Suc (j + n) - p < n" by linarith
    with 2 assms j show ?thesis 
      by (simp add: length_shift_down nth_shift_down nth_append del: shift_down.simps)
  next
    case 3
    then have "\<not> j < p - Suc n" "j - (p - Suc n) = n" "min p c = p" "\<not> p - Suc 0 < p - Suc n"
      using assms by simp_all
    with 3 assms j show ?thesis
      by (simp add: length_shift_down nth_shift_down nth_append del: shift_down.simps)
  qed
qed

section \<open>The operations on the contents of a well-formed state\<close>

lemma push_spec:
  assumes "well_formed st" "size_stk (snd st) < capacity (snd st)"
  shows "\<exists>st'. push x st = Return () st' \<and> well_formed st' \<and>
           elements st' = elements st @ [x] \<and>
           size_stk (snd st') = size_stk (snd st) + 1 \<and>
           capacity (snd st') = capacity (snd st)"
proof -
  from assms(1) obtain h a buf p c where
    st: "st = (h, \<lparr>m_base = Some a, m_pointer = p, m_capacity = c\<rparr>)" and
    h: "a < length h" "h ! a = Some buf" and len: "length buf = c" and pc: "p \<le> c" "c < 2 ^ 32" and
    ini: "\<forall>i<p. \<exists>v. buf ! i = Some v"
    by (rule well_formedE) blast
  from pc have p32: "p < 2 ^ 32" by simp
  from assms(2) st p32 have lt: "p < c" by (simp add: size_stk_simp capacity_def)
  let ?st' = "(h[a := Some (buf[p := Some x])], \<lparr>m_base = Some a, m_pointer = p + 1, m_capacity = c\<rparr>)"
  have 1: "push x st = Return () ?st'"
    unfolding st by (rule push_eq[OF h len lt pc(2)])
  have 2: "well_formed ?st'"
    using h len lt pc ini by (intro well_formedI[where buf = "buf[p := Some x]"]) (auto simp: nth_list_update less_Suc_eq)
  have 3: "elements ?st' = elements st @ [x]"
    using st h len lt pc p32 by (simp add: elements_simp take_Suc_conv_app_nth)
  show ?thesis using 1 2 3 st lt pc by (simp add: size_stk_simp capacity_def)
qed

lemma pop_spec:
  assumes "well_formed st" "0 < size_stk (snd st)"
  shows "\<exists>st'. pop st = Return (last (elements st)) st' \<and> well_formed st' \<and>
           elements st' = butlast (elements st) \<and>
           size_stk (snd st') + 1 = size_stk (snd st) \<and>
           capacity (snd st') = capacity (snd st)"
proof -
  from assms(1) obtain h a buf p c where
    st: "st = (h, \<lparr>m_base = Some a, m_pointer = p, m_capacity = c\<rparr>)" and
    h: "a < length h" "h ! a = Some buf" and len: "length buf = c" and pc: "p \<le> c" "c < 2 ^ 32" and
    ini: "\<forall>i<p. \<exists>v. buf ! i = Some v"
    by (rule well_formedE) blast
  from pc have p32: "p < 2 ^ 32" by simp
  from assms(2) st p32 have pos: "0 < p" by (simp add: size_stk_simp)
  then have "p - 1 < p" by simp
  with ini obtain v where v: "buf ! (p - 1) = Some v" by blast
  let ?st' = "(h, \<lparr>m_base = Some a, m_pointer = p - 1, m_capacity = c\<rparr>)"
  have 1: "pop st = Return v ?st'"
    unfolding st by (rule pop_eq[OF h len pos pc v])
  have 2: "well_formed ?st'"
    using h len pc ini by (intro well_formedI[where buf = buf]) auto
  have e: "elements st = map the (take p buf)"
    using st h p32 by (simp add: elements_simp)
  have tk: "take p buf = take (p - 1) buf @ [buf ! (p - 1)]"
    using take_Suc_conv_app_nth[of "p - 1" buf] pos pc len by simp
  have 3: "elements ?st' = butlast (elements st)" "last (elements st) = v"
    using h p32 e tk v by (simp_all add: elements_simp)
  show ?thesis using 1 2 3 st pos p32 by (simp add: size_stk_simp capacity_def)
qed

lemma pick_spec:
  assumes "well_formed st" "n < size_stk (snd st)" "size_stk (snd st) < capacity (snd st)"
    "n + 1 < 2 ^ 31"
  shows "\<exists>st'. pick n st = Return () st' \<and> well_formed st' \<and>
           elements st' = elements st @ [elements st ! (size_stk (snd st) - 1 - n)] \<and>
           size_stk (snd st') = size_stk (snd st) + 1 \<and>
           capacity (snd st') = capacity (snd st)"
proof -
  from assms(1) obtain h a buf p c where
    st: "st = (h, \<lparr>m_base = Some a, m_pointer = p, m_capacity = c\<rparr>)" and
    h: "a < length h" "h ! a = Some buf" and len: "length buf = c" and pc: "p \<le> c" "c < 2 ^ 32" and
    ini: "\<forall>i<p. \<exists>v. buf ! i = Some v"
    by (rule well_formedE) blast
  from pc have p32: "p < 2 ^ 32" by simp
  from assms(2) st p32 have np: "n < p" by (simp add: size_stk_simp)
  from assms(3) st p32 have lt: "p < c" by (simp add: size_stk_simp capacity_def)
  from np have "p - 1 - n < p" by simp
  with ini obtain v where v: "buf ! (p - 1 - n) = Some v" by blast
  have 1: "pick n st = push v st"
    unfolding st using pick_eq[OF h len np lt pc(2) assms(4) v] push_eq[OF h len lt pc(2), of v] by simp
  have e: "elements st = map the (take p buf)"
    using st h p32 by (simp add: elements_simp)
  have 2: "elements st ! (p - 1 - n) = v"
    using e np pc len v by simp
  from push_spec[OF assms(1,3), of v] 1 2 st p32 show ?thesis
    by (simp add: size_stk_simp)
qed

lemma roll_spec:
  assumes "well_formed st" "n < size_stk (snd st)" "size_stk (snd st) < capacity (snd st)"
    "n + 2 < 2 ^ 31"
  shows "\<exists>st'. roll n st = Return () st' \<and> well_formed st' \<and>
           elements st' = take (size_stk (snd st) - 1 - n) (elements st) @
                          drop (size_stk (snd st) - n) (elements st) @
                          [elements st ! (size_stk (snd st) - 1 - n)] \<and>
           size_stk (snd st') = size_stk (snd st) \<and>
           capacity (snd st') = capacity (snd st)"
proof -
  from assms(1) obtain h a buf p c where
    st: "st = (h, \<lparr>m_base = Some a, m_pointer = p, m_capacity = c\<rparr>)" and
    h: "a < length h" "h ! a = Some buf" and len: "length buf = c" and pc: "p \<le> c" "c < 2 ^ 32" and
    ini: "\<forall>i<p. \<exists>v. buf ! i = Some v"
    by (rule well_formedE) blast
  from pc have p32: "p < 2 ^ 32" by simp
  from assms(2) st p32 have np: "n < p" by (simp add: size_stk_simp)
  from assms(3) st p32 have lt: "p < c" by (simp add: size_stk_simp capacity_def)
  from np have "p - 1 - n < p" by simp
  with ini obtain v where v: "buf ! (p - 1 - n) = Some v" by blast
  let ?buf2 = "shift_down (buf[p := Some v]) (p - 1 - n) (Suc n)"
  let ?st' = "(h[a := Some ?buf2], \<lparr>m_base = Some a, m_pointer = p, m_capacity = c\<rparr>)"
  have 1: "roll n st = Return () ?st'"
    unfolding st using roll_eq[OF h len np lt pc(2) assms(4) ini] v by (simp del: shift_down.simps)
  have e: "elements st = map the (take p buf)"
    using st h p32 by (simp add: elements_simp)
  have ev: "elements st ! (p - 1 - n) = v"
    using e np pc len v by simp
  have 3: "elements ?st' = take (p - 1 - n) (elements st) @ drop (p - n) (elements st) @ [v]"
    using h p32 roll_elements[OF len np lt v] by (simp add: elements_simp e del: shift_down.simps)
  have nn: "?buf2 ! i \<noteq> None" if "i < p" for i
  proof -
    from that lt len have "?buf2 ! i = (if p - 1 - n \<le> i \<and> i < p - 1 - n + Suc n 
                 then buf[p := Some v] ! Suc i else buf[p := Some v] ! i)"
      using np by (intro nth_shift_down) simp_all
    with that ini lt len show ?thesis
      by (cases "Suc i = p") (auto simp: nth_list_update simp del: shift_down.simps)
  qed
  have 2: "well_formed ?st'"
    using h len pc nn by (intro well_formedI[where buf = ?buf2]) (simp_all add: length_shift_down del: shift_down.simps)
  show ?thesis using 1 2 3 ev st p32 by (simp add: size_stk_simp capacity_def del: shift_down.simps)
qed

lemma clear_spec:
  assumes "well_formed st"
  shows "\<exists>st'. clear st = Return () st' \<and> well_formed st' \<and> elements st' = [] \<and>
           size_stk (snd st') = 0 \<and> capacity (snd st') = capacity (snd st)"
proof -
  from assms obtain h a buf p c where
    st: "st = (h, \<lparr>m_base = Some a, m_pointer = p, m_capacity = c\<rparr>)" and
    h: "a < length h" "h ! a = Some buf" and len: "length buf = c" and pc: "p \<le> c" "c < 2 ^ 32"
    by (rule well_formedE) blast
  let ?st' = "(h, \<lparr>m_base = Some a, m_pointer = 0, m_capacity = c\<rparr>)"
  have "well_formed ?st'"
    using h len pc by (intro well_formedI[where buf = buf]) simp_all
  moreover have "elements ?st' = []"
    using h by (simp add: elements_simp)
  ultimately show ?thesis
    by (simp add: clear_def st size_stk_simp capacity_def)
qed

section \<open>The concrete states\<close>

lemma well_formed_full_stack: "well_formed full_stack"
  by (simp add: full_stack_def well_formed_def buffer_def live_def)

lemma well_formed_roomy_stack: "well_formed roomy_stack"
  by (simp add: roomy_stack_def well_formed_def buffer_def live_def)

lemma size_capacity_full_stack: "size_stk (snd full_stack) = 2" "capacity (snd full_stack) = 2"
  by (simp_all add: full_stack_def size_stk_def to_unsigned_def capacity_def)

lemma size_capacity_roomy_stack: "size_stk (snd roomy_stack) = 2" "capacity (snd roomy_stack) = 3"
  by (simp_all add: roomy_stack_def size_stk_def to_unsigned_def capacity_def)

lemma elements_roomy_stack: "elements roomy_stack = [1, 2]"
  by (simp add: roomy_stack_def elements_def buffer_def live_def size_stk_def to_unsigned_def)

lemma replicate_2: "replicate 2 x = [x, x]"
  by (simp add: numeral_2_eq_2)

lemma replicate_3: "replicate 3 x = [x, x, x]"
  by (simp add: numeral_3_eq_3)

lemma well_formed_empty_stack_4: "well_formed empty_stack_4"
  by (simp add: empty_stack_4_def well_formed_def buffer_def live_def)

lemma size_capacity_empty_stack_4:
  "size_stk (snd empty_stack_4) = 0" "capacity (snd empty_stack_4) = 4"
  by (simp_all add: empty_stack_4_def size_stk_def to_unsigned_def capacity_def)

lemma elements_empty_stack_4: "elements empty_stack_4 = []"
  by (simp add: empty_stack_4_def elements_def buffer_def live_def size_stk_def to_unsigned_def)

lemma replicate_4: "replicate 4 x = [x, x, x, x]"
proof -
  have "(4::nat) = Suc 3" by simp
  then show ?thesis by (simp only: replicate.simps replicate_3)
qed

lemma empty_stack_4_reached: "Stack_new szT 4 [] = Return () empty_stack_4"
  by (simp add: Stack_new_def allocate_def new_array_def size_stk_def to_unsigned_def
      empty_stack_4_def replicate_4)

lemma roomy_stack_reached:
  "and_then (Stack_new szT 3 []) (\<lambda>u s. and_then (push 1 s) (\<lambda>u s. push 2 s)) = Return () roomy_stack"
  by (simp add: Stack_new_def allocate_def new_array_def size_stk_def to_unsigned_def push_def
      capacity_def store_def live_def roomy_stack_def replicate_3)

lemma full_stack_reached:
  "and_then (Stack_new szT 2 []) (\<lambda>u s. and_then (push 1 s) (\<lambda>u s. push 2 s)) = Return () full_stack"
  by (simp add: Stack_new_def allocate_def new_array_def size_stk_def to_unsigned_def push_def
      capacity_def store_def live_def full_stack_def replicate_2)

lemma pick_underflow: "size_stk (snd st) \<le> n \<Longrightarrow> pick n st = Throw UnderflowError st"
  by (simp add: pick_def)

lemma push_not_underflow: "push x st \<noteq> Throw UnderflowError st'"
  by (simp add: push_def split: option.splits)

lemma pick_underflow_iff: "(pick n st = Throw UnderflowError st) = (size_stk (snd st) \<le> n)"
  by (auto simp: pick_def push_not_underflow split: option.splits)

lemma pick_overflow:
  assumes "well_formed st" "n < size_stk (snd st)" "capacity (snd st) \<le> size_stk (snd st)"
    "n + 1 < 2 ^ 31"
  shows "pick n st = Throw OverflowError st"
proof -
  from assms(1) obtain h a buf p c where
    st: "st = (h, \<lparr>m_base = Some a, m_pointer = p, m_capacity = c\<rparr>)" and
    h: "a < length h" "h ! a = Some buf" and len: "length buf = c" and pc: "p \<le> c" "c < 2 ^ 32" and
    ini: "\<forall>i<p. \<exists>v. buf ! i = Some v"
    by (rule well_formedE) blast
  from pc have p32: "p < 2 ^ 32" by simp
  from assms(2) st p32 have np: "n < p" by (simp add: size_stk_simp)
  then have "p - 1 - n < p" by simp
  with ini obtain v where v: "buf ! (p - 1 - n) = Some v" by blast
  have "int p + - int (n + 1) = int (p - 1 - n)" using np by simp
  from deref_eq[OF h _ this, of c] np pc len v
  have "deref st (- int (n + 1)) = Some v" by (simp add: st)
  with assms(2,3,4) show ?thesis
    by (simp add: pick_def push_def to_int_small negate_small del: of_nat_add of_nat_Suc)
qed

section \<open>pick\<close>

text \<open>
  Beyond the range of \<^verbatim>\<open>int\<close> the index \<^verbatim>\<open>-(int)(n+1)\<close> is not the depth any more:
  at \<open>n + 1 = 2 ^ 31\<close> the conversion gives \<^verbatim>\<open>INT_MIN\<close>, whose negation overflows.
\<close>

lemma pick_beyond_int_range:
  assumes "2 ^ 31 - 1 < size_stk (snd st)"
  shows "pick (2 ^ 31 - 1) st = Undefined" "roll (2 ^ 31 - 1) st = Undefined"
proof -
  have "negate (to_int (to_unsigned (2 ^ 31 - 1 + 1))) = None"
    by (simp add: negate_def to_int_def to_unsigned_def)
  with assms show "pick (2 ^ 31 - 1) st = Undefined"
    by (simp add: pick_def del: One_nat_def)
  then show "roll (2 ^ 31 - 1) st = Undefined"
    by (simp add: roll_def)
qed

text \<open>
  C2, counterexample. On the full stack of two elements, \<^verbatim>\<open>pick(0)\<close> meets the size
  requirement (\<open>0 < 2\<close>), and yet pushes nothing: its \<^verbatim>\<open>push\<close> throws
  \<^verbatim>\<open>overflow_error\<close>.
\<close>

theorem pick_full_stack_counterexample:
  "well_formed full_stack \<and> 0 < size_stk (snd full_stack) \<and>
   pick 0 full_stack = Throw OverflowError full_stack"
  using pick_overflow[OF well_formed_full_stack, of 0]
  by (simp add: well_formed_full_stack size_capacity_full_stack)

text \<open>
  C2, as amended. On a well-formed stack of size \<open>s\<close>, \<^verbatim>\<open>pick(n)\<close> throws
  \<^verbatim>\<open>underflow_error\<close> exactly when \<open>s \<le> n\<close>, and then leaves the stack as it was.
  Otherwise, for \<open>n + 1\<close> in the range of \<^verbatim>\<open>int\<close>: on a full stack it throws
  \<^verbatim>\<open>overflow_error\<close> and leaves the stack as it was; on a stack with a free slot
  it pushes a copy of the element at depth \<open>n\<close> (depth 0 is the top), the size
  grows by exactly one and every other element stays.
\<close>

theorem pick_amended:
  assumes "well_formed st"
  shows "(pick n st = Throw UnderflowError st) = (size_stk (snd st) \<le> n) \<and>
         (n < size_stk (snd st) \<and> capacity (snd st) \<le> size_stk (snd st) \<and> n + 1 < 2 ^ 31 \<longrightarrow>
            pick n st = Throw OverflowError st) \<and>
         (n < size_stk (snd st) \<and> size_stk (snd st) < capacity (snd st) \<and> n + 1 < 2 ^ 31 \<longrightarrow>
            (\<exists>st'. pick n st = Return () st' \<and> well_formed st' \<and>
               elements st' = elements st @ [elements st ! (size_stk (snd st) - 1 - n)] \<and>
               size_stk (snd st') = size_stk (snd st) + 1 \<and>
               capacity (snd st') = capacity (snd st)))"
  using pick_underflow_iff[of n st] pick_overflow[OF assms, of n] pick_spec[OF assms, of n]
  by blast

text \<open>
  C2, witness: \<^verbatim>\<open>pick(1)\<close> on the stack 1, 2 with one free slot gives 1, 2, 1, and
  \<^verbatim>\<open>pick(1)\<close> on the full stack 1, 2 throws \<^verbatim>\<open>overflow_error\<close>.
\<close>

theorem pick_amended_witness:
  "well_formed roomy_stack \<and> 1 < size_stk (snd roomy_stack) \<and>
   size_stk (snd roomy_stack) < capacity (snd roomy_stack) \<and>
   (\<exists>st'. pick 1 roomy_stack = Return () st' \<and> elements st' = [1, 2, 1] \<and>
      size_stk (snd st') = 3) \<and>
   well_formed full_stack \<and> 1 < size_stk (snd full_stack) \<and>
   capacity (snd full_stack) \<le> size_stk (snd full_stack) \<and>
   pick 1 full_stack = Throw OverflowError full_stack"
  using pick_amended[OF well_formed_roomy_stack, of 1] pick_amended[OF well_formed_full_stack, of 1]
  by (auto simp: well_formed_roomy_stack size_capacity_roomy_stack elements_roomy_stack
      well_formed_full_stack size_capacity_full_stack)

section \<open>What a throw tells\<close>

lemma and_then_Throw_iff:
  "(and_then m f = Throw e s') =
     (m = Throw e s' \<or> (\<exists>r s1. m = Return r s1 \<and> f r s1 = Throw e s'))"
  by (cases m) auto

lemma and_then_Return_iff:
  "(and_then m f = Return q s') = (\<exists>r s1. m = Return r s1 \<and> f r s1 = Return q s')"
  by (cases m) auto

lemma well_formed_bounds:
  "well_formed st \<Longrightarrow> m_pointer (snd st) \<le> m_capacity (snd st) \<and> m_capacity (snd st) < 2 ^ 32"
  by (auto simp: well_formed_def split: option.splits)

lemma well_formed_size: "well_formed st \<Longrightarrow> size_stk (snd st) = m_pointer (snd st)"
  using well_formed_bounds[of st] by (simp add: size_stk_def to_unsigned_def)

lemma well_formed_size_le: "well_formed st \<Longrightarrow> size_stk (snd st) \<le> capacity (snd st)"
  using well_formed_bounds[of st] by (simp add: well_formed_size capacity_def)

lemma push_Throw_D:
  "push x st = Throw e st' \<Longrightarrow>
     e = OverflowError \<and> st' = st \<and> capacity (snd st) \<le> size_stk (snd st)"
  by (auto simp: push_def split: if_splits option.splits)

lemma push_Return_D:
  "push x st = Return u st' \<Longrightarrow>
     size_stk (snd st) < capacity (snd st) \<and>
     snd st' = (snd st)\<lparr>m_pointer := m_pointer (snd st) + 1\<rparr>"
  by (auto simp: push_def store_def Let_def split: if_splits option.splits)

lemma pop_Throw_D:
  "pop st = Throw e st' \<Longrightarrow> e = UnderflowError \<and> st' = st \<and> size_stk (snd st) = 0"
  by (auto simp: pop_def Let_def split: if_splits option.splits)

lemma pop_underflow_iff: "(pop st = Throw UnderflowError st) = (size_stk (snd st) = 0)"
  by (auto simp: pop_def Let_def split: option.splits)

lemma drop_stk_Throw_D:
  "drop_stk st = Throw e st' \<Longrightarrow> e = UnderflowError \<and> st' = st \<and> size_stk (snd st) = 0"
  by (auto simp: drop_stk_def and_then_Throw_iff dest: pop_Throw_D)

lemma pick_Throw_D:
  "pick n st = Throw e st' \<Longrightarrow>
     st' = st \<and>
     (e = UnderflowError \<and> size_stk (snd st) \<le> n \<or>
      e = OverflowError \<and> n < size_stk (snd st) \<and> capacity (snd st) \<le> size_stk (snd st))"
  by (auto simp: pick_def split: if_splits option.splits dest: push_Throw_D)

lemma pick_Return_D:
  "pick n st = Return u st' \<Longrightarrow>
     n < size_stk (snd st) \<and> size_stk (snd st) < capacity (snd st) \<and>
     snd st' = (snd st)\<lparr>m_pointer := m_pointer (snd st) + 1\<rparr>"
  by (auto simp: pick_def split: if_splits option.splits dest: push_Return_D)

lemma roll_loop_not_Throw: "roll_loop i st \<noteq> Throw e st'"
proof (induction i st rule: roll_loop.induct)
  case (1 i st)
  show ?case
  proof (cases "i \<le> - 2")
    case True
    show ?thesis
    proof (cases "deref st (i + 1)")
      case None
      with True show ?thesis by (subst roll_loop.simps) simp
    next
      case (Some v)
      show ?thesis
      proof (cases "store st i v")
        case None
        with True Some show ?thesis by (subst roll_loop.simps) simp
      next
        case (Some st1)
        with True \<open>deref st (i + 1) = Some v\<close> "1.IH"[of v st1] show ?thesis
          by (subst roll_loop.simps) simp
      qed
    qed
  next
    case False
    then show ?thesis by (subst roll_loop.simps) simp
  qed
qed

lemma store_snd: "store st i v = Some st' \<Longrightarrow> snd st' = snd st"
  by (auto simp: store_def Let_def split: option.splits if_splits)

lemma roll_loop_Return_D: "roll_loop i st = Return u st' \<Longrightarrow> snd st' = snd st"
proof (induction i st rule: roll_loop.induct)
  case (1 i st)
  show ?case
  proof (cases "i \<le> - 2")
    case True
    with "1.prems" obtain v st1 where
      v: "deref st (i + 1) = Some v" and s: "store st i v = Some st1" and
      r: "roll_loop (i + 1) st1 = Return u st'"
      by (subst (asm) roll_loop.simps) (auto split: option.splits)
    from "1.IH"[OF True v s r] store_snd[OF s] show ?thesis by simp
  next
    case False
    with "1.prems" show ?thesis by (subst (asm) roll_loop.simps) simp
  qed
qed

lemma roll_Throw_D:
  assumes "well_formed st" "roll n st = Throw e st'"
  shows "st' = st \<and>
     (e = UnderflowError \<and> size_stk (snd st) \<le> n \<or>
      e = OverflowError \<and> n < size_stk (snd st) \<and> capacity (snd st) \<le> size_stk (snd st))"
proof (cases "pick n st = Throw e st'")
  case True
  then show ?thesis by (rule pick_Throw_D)
next
  case False
  with assms(2) obtain u st1 i u2 st2 where
    p: "pick n st = Return u st1" and l: "roll_loop i st1 = Return u2 st2" and
    d: "drop_stk st2 = Throw e st'"
    by (auto simp: roll_def and_then_Throw_iff roll_loop_not_Throw split: option.splits)
  from pick_Return_D[OF p] roll_loop_Return_D[OF l]
  have lt: "size_stk (snd st) < capacity (snd st)" and
    s2: "snd st2 = (snd st)\<lparr>m_pointer := m_pointer (snd st) + 1\<rparr>" by simp_all
  from lt well_formed_bounds[OF assms(1)] well_formed_size[OF assms(1)]
  have "m_pointer (snd st) + 1 < 2 ^ 32" by (simp add: capacity_def)
  with s2 have "size_stk (snd st2) = m_pointer (snd st) + 1"
    by (simp add: size_stk_def to_unsigned_def)
  with drop_stk_Throw_D[OF d] show ?thesis by simp
qed

lemma roll_underflow: "size_stk (snd st) \<le> n \<Longrightarrow> roll n st = Throw UnderflowError st"
  by (simp add: roll_def pick_def)

lemma roll_underflow_iff:
  "well_formed st \<Longrightarrow> (roll n st = Throw UnderflowError st) = (size_stk (snd st) \<le> n)"
  using roll_underflow[of st n] roll_Throw_D[of st n UnderflowError st] by auto

lemma roll_overflow:
  assumes "well_formed st" "n < size_stk (snd st)" "capacity (snd st) \<le> size_stk (snd st)"
    "n + 1 < 2 ^ 31"
  shows "roll n st = Throw OverflowError st"
  by (simp add: roll_def pick_overflow[OF assms])

section \<open>roll\<close>

text \<open>
  C1, counterexample. The full stack holds two elements, so depth 1 is there
  (\<open>1 < 2\<close>); \<^verbatim>\<open>roll(1)\<close> does not bring it to the top but throws
  \<^verbatim>\<open>overflow_error\<close>, from the \<^verbatim>\<open>push\<close> inside its \<^verbatim>\<open>pick\<close>.
\<close>

theorem roll_full_stack_counterexample:
  "well_formed full_stack \<and> 1 < size_stk (snd full_stack) \<and>
   roll 1 full_stack = Throw OverflowError full_stack"
  using roll_overflow[OF well_formed_full_stack, of 1]
  by (simp add: well_formed_full_stack size_capacity_full_stack)

text \<open>
  C1, as amended. On a well-formed stack of size \<open>s\<close>, \<^verbatim>\<open>roll(n)\<close> throws
  \<^verbatim>\<open>underflow_error\<close> exactly when \<open>s \<le> n\<close>. Otherwise, for \<open>n + 2\<close> in the range
  of \<^verbatim>\<open>int\<close>: on a full stack it throws \<^verbatim>\<open>overflow_error\<close>; on a stack with a
  free slot it returns, the element that was at depth \<open>n\<close> is on top, the elements
  that were above it have moved down by one slot, the elements below depth \<open>n\<close>
  are where they were, and the size is what it was.
\<close>

theorem roll_amended:
  assumes "well_formed st"
  shows "(roll n st = Throw UnderflowError st) = (size_stk (snd st) \<le> n) \<and>
         (n < size_stk (snd st) \<and> capacity (snd st) \<le> size_stk (snd st) \<and> n + 2 < 2 ^ 31 \<longrightarrow>
            roll n st = Throw OverflowError st) \<and>
         (n < size_stk (snd st) \<and> size_stk (snd st) < capacity (snd st) \<and> n + 2 < 2 ^ 31 \<longrightarrow>
            (\<exists>st'. roll n st = Return () st' \<and> well_formed st' \<and>
               elements st' = take (size_stk (snd st) - 1 - n) (elements st) @
                              drop (size_stk (snd st) - n) (elements st) @
                              [elements st ! (size_stk (snd st) - 1 - n)] \<and>
               size_stk (snd st') = size_stk (snd st) \<and>
               capacity (snd st') = capacity (snd st)))"
proof (intro conjI impI)
  show "(roll n st = Throw UnderflowError st) = (size_stk (snd st) \<le> n)"
    by (rule roll_underflow_iff[OF assms])
next
  assume "n < size_stk (snd st) \<and> capacity (snd st) \<le> size_stk (snd st) \<and> n + 2 < 2 ^ 31"
  then show "roll n st = Throw OverflowError st"
    using roll_overflow[OF assms, of n] by simp
next
  assume "n < size_stk (snd st) \<and> size_stk (snd st) < capacity (snd st) \<and> n + 2 < 2 ^ 31"
  then show "\<exists>st'. roll n st = Return () st' \<and> well_formed st' \<and>
               elements st' = take (size_stk (snd st) - 1 - n) (elements st) @
                              drop (size_stk (snd st) - n) (elements st) @
                              [elements st ! (size_stk (snd st) - 1 - n)] \<and>
               size_stk (snd st') = size_stk (snd st) \<and>
               capacity (snd st') = capacity (snd st)"
    using roll_spec[OF assms, of n] by simp
qed

text \<open>
  C1, witness: \<^verbatim>\<open>roll(1)\<close> on the stack 1, 2 with one free slot gives 2, 1, and
  \<^verbatim>\<open>roll(1)\<close> on the full stack 1, 2 throws \<^verbatim>\<open>overflow_error\<close>.
\<close>

theorem roll_amended_witness:
  "well_formed roomy_stack \<and> 1 < size_stk (snd roomy_stack) \<and>
   size_stk (snd roomy_stack) < capacity (snd roomy_stack) \<and>
   (\<exists>st'. roll 1 roomy_stack = Return () st' \<and> elements st' = [2, 1] \<and>
      size_stk (snd st') = 2) \<and>
   well_formed full_stack \<and> 1 < size_stk (snd full_stack) \<and>
   capacity (snd full_stack) \<le> size_stk (snd full_stack) \<and>
   roll 1 full_stack = Throw OverflowError full_stack"
  using roll_amended[OF well_formed_roomy_stack, of 1] roll_amended[OF well_formed_full_stack, of 1]
  by (auto simp: well_formed_roomy_stack size_capacity_roomy_stack elements_roomy_stack
      well_formed_full_stack size_capacity_full_stack)

section \<open>Sequences of pushes and pops\<close>

lemma length_elements: "well_formed st \<Longrightarrow> length (elements st) = size_stk (snd st)"
proof -
  assume wf: "well_formed st"
  then obtain h a buf p c where
    st: "st = (h, \<lparr>m_base = Some a, m_pointer = p, m_capacity = c\<rparr>)" and
    h: "a < length h" "h ! a = Some buf" and len: "length buf = c" and pc: "p \<le> c" "c < 2 ^ 32"
    by (rule well_formedE) blast
  from pc have "p < 2 ^ 32" by simp
  with st h len pc show ?thesis by (simp add: elements_simp size_stk_simp)
qed

lemma push_all_spec:
  "well_formed st \<Longrightarrow> size_stk (snd st) + length xs \<le> capacity (snd st) \<Longrightarrow>
     \<exists>st'. push_all xs st = Return () st' \<and> well_formed st' \<and>
       elements st' = elements st @ xs \<and>
       size_stk (snd st') = size_stk (snd st) + length xs \<and>
       capacity (snd st') = capacity (snd st)"
proof (induction xs arbitrary: st)
  case Nil
  then show ?case by simp
next
  case (Cons x xs)
  from Cons.prems have "size_stk (snd st) < capacity (snd st)" by simp
  from push_spec[OF Cons.prems(1) this, of x] obtain st1 where
    1: "push x st = Return () st1" "well_formed st1" "elements st1 = elements st @ [x]"
       "size_stk (snd st1) = size_stk (snd st) + 1" "capacity (snd st1) = capacity (snd st)"
    by blast
  with Cons.prems have "size_stk (snd st1) + length xs \<le> capacity (snd st1)" by simp
  from Cons.IH[OF 1(2) this] obtain st2 where
    2: "push_all xs st1 = Return () st2" "well_formed st2" "elements st2 = elements st1 @ xs"
       "size_stk (snd st2) = size_stk (snd st1) + length xs" "capacity (snd st2) = capacity (snd st1)"
    by blast
  from 1 2 show ?case by simp
qed

lemma drop_snoc_last:
  assumes "i < length es"
  shows "drop i es = drop i (butlast es) @ [last es]"
proof -
  from assms have ne: "es \<noteq> []" by auto
  then have "drop i es = drop i (butlast es @ [last es])" by simp
  also have "\<dots> = drop i (butlast es) @ [last es]" using assms by (simp del: append_butlast_last_id)
  finally show ?thesis .
qed

lemma pop_n_spec:
  "well_formed st \<Longrightarrow> k \<le> size_stk (snd st) \<Longrightarrow>
     \<exists>st'. pop_n k st = Return (rev (drop (size_stk (snd st) - k) (elements st))) st' \<and>
       well_formed st' \<and>
       elements st' = take (size_stk (snd st) - k) (elements st) \<and>
       size_stk (snd st') = size_stk (snd st) - k \<and>
       capacity (snd st') = capacity (snd st)"
proof (induction k arbitrary: st)
  case 0
  then show ?case by (simp add: length_elements)
next
  case (Suc k)
  let ?s = "size_stk (snd st)"
  let ?es = "elements st"
  from Suc.prems have pos: "0 < ?s" by simp
  have len: "length ?es = ?s" by (rule length_elements[OF Suc.prems(1)])
  from pop_spec[OF Suc.prems(1) pos] obtain st1 where
    1: "pop st = Return (last ?es) st1" "well_formed st1" "elements st1 = butlast ?es"
       "size_stk (snd st1) + 1 = ?s" "capacity (snd st1) = capacity (snd st)"
    by blast
  with Suc.prems have "k \<le> size_stk (snd st1)" by simp
  from Suc.IH[OF 1(2) this] obtain st2 where
    2: "pop_n k st1 = Return (rev (drop (size_stk (snd st1) - k) (elements st1))) st2"
       "well_formed st2" "elements st2 = take (size_stk (snd st1) - k) (elements st1)"
       "size_stk (snd st2) = size_stk (snd st1) - k" "capacity (snd st2) = capacity (snd st1)"
    by blast
  from 1(4) have s1: "size_stk (snd st1) - k = ?s - Suc k" by simp
  from pos len have "?s - Suc k < length ?es" by simp
  from drop_snoc_last[OF this]
  have d: "rev (drop (?s - Suc k) ?es) = last ?es # rev (drop (?s - Suc k) (butlast ?es))" by simp
  have t: "take (?s - Suc k) (butlast ?es) = take (?s - Suc k) ?es"
    using pos len by (simp add: take_butlast)
  from 1 2 show ?case by (simp add: s1 d t)
qed

text \<open>
  C6. Pushing any sequence of values that fits into the free slots of a
  well-formed stack and then popping as many times returns the values in the
  reverse order of the pushes, and the stack then holds the elements it held
  before the pushes.
\<close>

theorem lifo:
  assumes "well_formed st" "size_stk (snd st) + length xs \<le> capacity (snd st)"
  shows "\<exists>st1 st2. push_all xs st = Return () st1 \<and>
           pop_n (length xs) st1 = Return (rev xs) st2 \<and>
           well_formed st2 \<and> elements st2 = elements st \<and>
           size_stk (snd st2) = size_stk (snd st) \<and>
           capacity (snd st2) = capacity (snd st)"
proof -
  from push_all_spec[OF assms] obtain st1 where
    1: "push_all xs st = Return () st1" "well_formed st1" "elements st1 = elements st @ xs"
       "size_stk (snd st1) = size_stk (snd st) + length xs" "capacity (snd st1) = capacity (snd st)"
    by blast
  then have "length xs \<le> size_stk (snd st1)" by simp
  from pop_n_spec[OF 1(2) this] obtain st2 where
    2: "pop_n (length xs) st1 =
          Return (rev (drop (size_stk (snd st1) - length xs) (elements st1))) st2"
       "well_formed st2" "elements st2 = take (size_stk (snd st1) - length xs) (elements st1)"
       "size_stk (snd st2) = size_stk (snd st1) - length xs" "capacity (snd st2) = capacity (snd st1)"
    by blast
  have "length (elements st) = size_stk (snd st)" by (rule length_elements[OF assms(1)])
  with 1 2 have
    3: "pop_n (length xs) st1 = Return (rev xs) st2" "elements st2 = elements st"
       "size_stk (snd st2) = size_stk (snd st)" "capacity (snd st2) = capacity (snd st)"
    by simp_all
  from 1(1) 3 2(2) show ?thesis by blast
qed

text \<open>C6, witness: pushing 7, 8, 9 on \<^verbatim>\<open>Stack<T> s(4)\<close> and popping three times.\<close>

theorem lifo_witness:
  "well_formed empty_stack_4 \<and>
   size_stk (snd empty_stack_4) + length [7, 8, 9 :: int] \<le> capacity (snd empty_stack_4) \<and>
   (\<exists>st1 st2. push_all [7, 8, 9] empty_stack_4 = Return () st1 \<and>
      pop_n (length [7, 8, 9 :: int]) st1 = Return [9, 8, 7] st2 \<and> elements st2 = [])"
proof -
  have "size_stk (snd empty_stack_4) + length [7, 8, 9 :: int] \<le> capacity (snd empty_stack_4)"
    by (simp add: size_capacity_empty_stack_4)
  from lifo[OF well_formed_empty_stack_4 this] this show ?thesis
    by (auto simp: well_formed_empty_stack_4 elements_empty_stack_4 simp del: push_all.simps pop_n.simps)
qed

section \<open>peek\<close>

lemma peek_spec:
  assumes "well_formed st" "0 < size_stk (snd st)"
  shows "peek st = Return (last (elements st)) st"
proof -
  from assms(1) obtain h a buf p c where
    st: "st = (h, \<lparr>m_base = Some a, m_pointer = p, m_capacity = c\<rparr>)" and
    h: "a < length h" "h ! a = Some buf" and len: "length buf = c" and pc: "p \<le> c" "c < 2 ^ 32" and
    ini: "\<forall>i<p. \<exists>v. buf ! i = Some v"
    by (rule well_formedE) blast
  from pc have p32: "p < 2 ^ 32" by simp
  from assms(2) st p32 have pos: "0 < p" by (simp add: size_stk_simp)
  then have "p - 1 < p" by simp
  with ini obtain v where v: "buf ! (p - 1) = Some v" by blast
  have 1: "pop st = Return v (h, \<lparr>m_base = Some a, m_pointer = p - 1, m_capacity = c\<rparr>)"
    unfolding st by (rule pop_eq[OF h len pos pc v])
  from pos pc have lt: "p - 1 < c" by simp
  have "buf[p - 1 := Some v] = buf"
    by (subst v[symmetric]) (rule list_update_id)
  then have same: "h[a := Some (buf[p - Suc 0 := Some v])] = h"
    using h by (simp add: list_update_same_conv)
  have 2: "push v (h, \<lparr>m_base = Some a, m_pointer = p - 1, m_capacity = c\<rparr>) = Return () st"
    using push_eq[OF h len lt pc(2), of v] pos by (simp add: same st)
  have tk: "take p buf = take (p - 1) buf @ [buf ! (p - 1)]"
    using take_Suc_conv_app_nth[of "p - 1" buf] pos pc len by simp
  have 3: "last (elements st) = v"
    using st h p32 tk v by (simp add: elements_simp)
  show ?thesis by (simp only: peek_def 1 2 3 and_then.simps)
qed

lemma peek_n_spec:
  assumes "well_formed st" "0 < size_stk (snd st)"
  shows "peek_n k st = Return (replicate k (last (elements st))) st"
  by (induction k) (simp_all add: peek_spec[OF assms])

text \<open>
  C8. On a well-formed stack that is not empty, \<^verbatim>\<open>peek()\<close> returns the top value and
  leaves the state as it was, although it pops and pushes; so any number of calls
  return the top value each and leave the state as it was.
\<close>

theorem peek_idempotent:
  assumes "well_formed st" "0 < size_stk (snd st)"
  shows "peek st = Return (last (elements st)) st \<and>
         peek_n k st = Return (replicate k (last (elements st))) st"
  using peek_spec[OF assms] peek_n_spec[OF assms] by simp

text \<open>C8, witness: three calls on the stack 1, 2.\<close>

theorem peek_idempotent_witness:
  "well_formed roomy_stack \<and> 0 < size_stk (snd roomy_stack) \<and>
   peek roomy_stack = Return 2 roomy_stack \<and>
   peek_n 3 roomy_stack = Return [2, 2, 2] roomy_stack"
  using peek_idempotent[OF well_formed_roomy_stack, of 3]
  by (simp add: well_formed_roomy_stack size_capacity_roomy_stack elements_roomy_stack replicate_3)

section \<open>swap and the other words\<close>

lemma last_two:
  assumes "2 \<le> length es"
  shows "es = take (length es - 2) es @ [es ! (length es - 2), es ! (length es - 1)]"
    (is "es = ?r")
proof (rule nth_equalityI)
  show "length es = length ?r" using assms by simp
next
  fix i assume i: "i < length es"
  then consider "i < length es - 2" | "i = length es - 2" | "i = length es - 1" by linarith
  then show "es ! i = ?r ! i"
  proof cases
    case 1
    then show ?thesis by (simp add: nth_append)
  next
    case 2
    with assms show ?thesis by (simp add: nth_append)
  next
    case 3
    with assms have "i - (length es - 2) = 1" "\<not> i < length es - 2" by simp_all
    with 3 show ?thesis by (simp add: nth_append)
  qed
qed

lemma swap_spec:
  assumes "well_formed st" "2 \<le> size_stk (snd st)" "size_stk (snd st) < capacity (snd st)"
  shows "\<exists>st'. swap st = Return () st' \<and> well_formed st' \<and>
           elements st' = take (size_stk (snd st) - 2) (elements st) @
                          [elements st ! (size_stk (snd st) - 1), elements st ! (size_stk (snd st) - 2)] \<and>
           size_stk (snd st') = size_stk (snd st) \<and>
           capacity (snd st') = capacity (snd st)"
proof -
  let ?s = "size_stk (snd st)"
  let ?es = "elements st"
  have len: "length ?es = ?s" by (rule length_elements[OF assms(1)])
  from assms(2) have 1: "1 < ?s" by simp
  have b: "(1::nat) + 2 < 2 ^ 31" by simp
  from roll_spec[OF assms(1) 1 assms(3) b] obtain st' where
    r: "roll 1 st = Return () st'" "well_formed st'"
       "elements st' = take (?s - 1 - 1) ?es @ drop (?s - 1) ?es @ [?es ! (?s - 1 - 1)]"
       "size_stk (snd st') = ?s" "capacity (snd st') = capacity (snd st)"
    by blast
  have d: "drop (?s - 1) ?es = [?es ! (?s - 1)]"
    using Cons_nth_drop_Suc[of "?s - 1" ?es] len assms(2) by simp
  have "?s - 1 - 1 = ?s - 2" by simp
  with r d show ?thesis by (simp add: swap_def)
qed

text \<open>
  C10. On a well-formed stack with at least two elements and a free slot, two
  \<^verbatim>\<open>swap()\<close> calls in a row both return, and the stack then has the size and the
  elements, at every depth, that it had before.
\<close>

theorem swap_twice:
  assumes "well_formed st" "2 \<le> size_stk (snd st)" "size_stk (snd st) < capacity (snd st)"
  shows "\<exists>st1 st2. swap st = Return () st1 \<and> swap st1 = Return () st2 \<and>
           well_formed st2 \<and> elements st2 = elements st \<and>
           size_stk (snd st2) = size_stk (snd st) \<and>
           capacity (snd st2) = capacity (snd st)"
proof -
  let ?s = "size_stk (snd st)"
  let ?es = "elements st"
  have len: "length ?es = ?s" by (rule length_elements[OF assms(1)])
  from swap_spec[OF assms] obtain st1 where
    1: "swap st = Return () st1" "well_formed st1"
       "elements st1 = take (?s - 2) ?es @ [?es ! (?s - 1), ?es ! (?s - 2)]"
       "size_stk (snd st1) = ?s" "capacity (snd st1) = capacity (snd st)"
    by blast
  from 1 assms have p: "2 \<le> size_stk (snd st1)" "size_stk (snd st1) < capacity (snd st1)"
    by simp_all
  from swap_spec[OF 1(2) p] 1(4,5) obtain st2 where
    2: "swap st1 = Return () st2" "well_formed st2"
       "elements st2 = take (?s - 2) (elements st1) @
                       [elements st1 ! (?s - 1), elements st1 ! (?s - 2)]"
       "size_stk (snd st2) = ?s" "capacity (snd st2) = capacity (snd st)"
    by auto
  from assms(2) len have i: "?s - 1 - (?s - 2) = 1" "\<not> ?s - 1 < ?s - 2" by simp_all
  have "elements st2 = take (?s - 2) ?es @ [?es ! (?s - 2), ?es ! (?s - 1)]"
    using len assms(2) i by (simp add: 2(3) 1(3) nth_append)
  also have "\<dots> = ?es" using last_two[of ?es] len assms(2) by simp
  finally have "elements st2 = ?es" .
  with 1(1) 2(1,2,4,5) show ?thesis by blast
qed

text \<open>C10, witness: two swaps on the stack 1, 2 with one free slot.\<close>

theorem swap_twice_witness:
  "well_formed roomy_stack \<and> 2 \<le> size_stk (snd roomy_stack) \<and>
   size_stk (snd roomy_stack) < capacity (snd roomy_stack) \<and>
   (\<exists>st1 st2. swap roomy_stack = Return () st1 \<and> swap st1 = Return () st2 \<and>
      elements st2 = [1, 2] \<and> size_stk (snd st2) = 2)"
  using swap_twice[OF well_formed_roomy_stack]
  by (auto simp: well_formed_roomy_stack size_capacity_roomy_stack elements_roomy_stack)

section \<open>The table of words\<close>

lemma drop_stk_spec:
  assumes "well_formed st" "0 < size_stk (snd st)"
  shows "\<exists>st'. drop_stk st = Return () st' \<and> well_formed st' \<and>
           elements st' = butlast (elements st) \<and>
           size_stk (snd st') + 1 = size_stk (snd st) \<and>
           capacity (snd st') = capacity (snd st)"
  using pop_spec[OF assms] by (auto simp: drop_stk_def)

lemma pushed:
  assumes "well_formed st" "size_stk (snd st) = 0" "length xs \<le> capacity (snd st)"
  shows "\<exists>st'. push_all xs st = Return () st' \<and> well_formed st' \<and> elements st' = xs \<and>
           size_stk (snd st') = length xs \<and> capacity (snd st') = capacity (snd st)"
proof -
  from length_elements[OF assms(1)] assms(2) have "elements st = []" by simp
  with push_all_spec[OF assms(1), of xs] assms(2,3) show ?thesis by simp
qed

lemma dup_row:
  assumes "well_formed st" "size_stk (snd st) = 0" "3 \<le> capacity (snd st)"
  shows "\<exists>st'. and_then (push_all [x, y] st) (\<lambda>u. dup) = Return () st' \<and> elements st' = [x, y, y]"
proof -
  from pushed[OF assms(1,2), of "[x, y]"] assms(3) obtain st1 where
    1: "push_all [x, y] st = Return () st1" "well_formed st1" "elements st1 = [x, y]"
       "size_stk (snd st1) = 2" "capacity (snd st1) = capacity (snd st)"
    by auto
  from pick_spec[OF 1(2), of 0] 1 assms(3) obtain st2 where
    "pick 0 st1 = Return () st2" "elements st2 = [x, y, y]"
    by auto
  with 1(1) show ?thesis by (simp add: dup_def)
qed

lemma over_row:
  assumes "well_formed st" "size_stk (snd st) = 0" "3 \<le> capacity (snd st)"
  shows "\<exists>st'. and_then (push_all [x, y] st) (\<lambda>u. over) = Return () st' \<and> elements st' = [x, y, x]"
proof -
  from pushed[OF assms(1,2), of "[x, y]"] assms(3) obtain st1 where
    1: "push_all [x, y] st = Return () st1" "well_formed st1" "elements st1 = [x, y]"
       "size_stk (snd st1) = 2" "capacity (snd st1) = capacity (snd st)"
    by auto
  from pick_spec[OF 1(2), of 1] 1 assms(3) obtain st2 where
    "pick 1 st1 = Return () st2" "elements st2 = [x, y, x]"
    by auto
  with 1(1) show ?thesis by (simp add: over_def)
qed

lemma tuck_row:
  assumes "well_formed st" "size_stk (snd st) = 0" "3 \<le> capacity (snd st)"
  shows "\<exists>st'. and_then (push_all [x, y] st) (\<lambda>u. tuck) = Return () st' \<and> elements st' = [y, x, y]"
proof -
  from pushed[OF assms(1,2), of "[x, y]"] assms(3) obtain st1 where
    1: "push_all [x, y] st = Return () st1" "well_formed st1" "elements st1 = [x, y]"
       "size_stk (snd st1) = 2" "capacity (snd st1) = capacity (snd st)"
    by auto
  from swap_spec[OF 1(2)] 1 assms(3) obtain st2 where
    2: "swap st1 = Return () st2" "well_formed st2" "elements st2 = [y, x]"
       "size_stk (snd st2) = 2" "capacity (snd st2) = capacity (snd st)"
    by auto
  from pick_spec[OF 2(2), of 1] 2 assms(3) obtain st3 where
    "pick 1 st2 = Return () st3" "elements st3 = [y, x, y]"
    by auto
  with 1(1) 2(1) show ?thesis by (simp add: tuck_def over_def)
qed

lemma swap_row:
  assumes "well_formed st" "size_stk (snd st) = 0" "4 \<le> capacity (snd st)"
  shows "\<exists>st'. and_then (push_all [x, y, z] st) (\<lambda>u. swap) = Return () st' \<and> elements st' = [x, z, y]"
proof -
  from pushed[OF assms(1,2), of "[x, y, z]"] assms(3) obtain st1 where
    1: "push_all [x, y, z] st = Return () st1" "well_formed st1" "elements st1 = [x, y, z]"
       "size_stk (snd st1) = 3" "capacity (snd st1) = capacity (snd st)"
    by auto
  from swap_spec[OF 1(2)] 1 assms(3) obtain st2 where
    2: "swap st1 = Return () st2" "elements st2 = [x, z, y]"
    by auto
  with 1(1) show ?thesis by simp
qed

lemma rot_row:
  assumes "well_formed st" "size_stk (snd st) = 0" "4 \<le> capacity (snd st)"
  shows "\<exists>st'. and_then (push_all [x, y, z] st) (\<lambda>u. rot) = Return () st' \<and> elements st' = [y, z, x]"
proof -
  from pushed[OF assms(1,2), of "[x, y, z]"] assms(3) obtain st1 where
    1: "push_all [x, y, z] st = Return () st1" "well_formed st1" "elements st1 = [x, y, z]"
       "size_stk (snd st1) = 3" "capacity (snd st1) = capacity (snd st)"
    by auto
  from roll_spec[OF 1(2), of 2] 1 assms(3) obtain st2 where
    2: "roll 2 st1 = Return () st2" "elements st2 = [y, z, x]"
    by auto
  with 1(1) show ?thesis by (simp add: rot_def)
qed

lemma nip_row:
  assumes "well_formed st" "size_stk (snd st) = 0" "4 \<le> capacity (snd st)"
  shows "\<exists>st'. and_then (push_all [x, y, z] st) (\<lambda>u. nip) = Return () st' \<and> elements st' = [x, z]"
proof -
  from pushed[OF assms(1,2), of "[x, y, z]"] assms(3) obtain st1 where
    1: "push_all [x, y, z] st = Return () st1" "well_formed st1" "elements st1 = [x, y, z]"
       "size_stk (snd st1) = 3" "capacity (snd st1) = capacity (snd st)"
    by auto
  from swap_spec[OF 1(2)] 1 assms(3) obtain st2 where
    2: "swap st1 = Return () st2" "well_formed st2" "elements st2 = [x, z, y]"
       "size_stk (snd st2) = 3"
    by auto
  from drop_stk_spec[OF 2(2)] 2 obtain st3 where
    "drop_stk st2 = Return () st3" "elements st3 = [x, z]"
    by auto
  with 1(1) 2(1) show ?thesis by (simp add: nip_def)
qed

lemma well_formed_full_stack_3: "well_formed full_stack_3"
  by (simp add: full_stack_3_def well_formed_def buffer_def live_def)

lemma size_capacity_full_stack_3: "size_stk (snd full_stack_3) = 3" "capacity (snd full_stack_3) = 3"
  by (simp_all add: full_stack_3_def size_stk_def to_unsigned_def capacity_def)

lemma Stack_new_3: "Stack_new szT 3 [] = Return () empty_stack_3"
  by (simp add: Stack_new_def allocate_def new_array_def size_stk_def to_unsigned_def
      empty_stack_3_def replicate_3)

lemma push_all_3: "push_all [1, 2, 3] empty_stack_3 = Return () full_stack_3"
  by (simp add: empty_stack_3_def full_stack_3_def push_def size_stk_def to_unsigned_def
      capacity_def store_def live_def)

lemma size_empty_stack_3: "size_stk (snd empty_stack_3) = 0"
  by (simp add: empty_stack_3_def size_stk_def to_unsigned_def)

text \<open>
  C7, counterexample. \<^verbatim>\<open>Stack<T> s(3)\<close> is initially empty and takes the pushes of
  1, 2, 3; \<^verbatim>\<open>swap()\<close> then throws \<^verbatim>\<open>overflow_error\<close> and the contents stay 1, 2, 3
  instead of becoming 1, 3, 2.
\<close>

theorem swap_capacity_3_counterexample:
  "Stack_new 1 3 [] = Return () empty_stack_3 \<and>
   size_stk (snd empty_stack_3) = 0 \<and>
   push_all [1, 2, 3] empty_stack_3 = Return () full_stack_3 \<and>
   swap full_stack_3 = Throw OverflowError full_stack_3"
proof -
  have "swap full_stack_3 = Throw OverflowError full_stack_3"
    using roll_overflow[OF well_formed_full_stack_3, of 1]
    by (simp add: swap_def size_capacity_full_stack_3)
  then show ?thesis
    by (intro conjI Stack_new_3 size_empty_stack_3 push_all_3)
qed

text \<open>
  C7, as amended. On a well-formed stack that is empty: with a capacity of at
  least 3, pushing 1, 2 and then \<^verbatim>\<open>dup\<close> gives 1, 2, 2, \<^verbatim>\<open>over\<close> gives 1, 2, 1 and
  \<^verbatim>\<open>tuck\<close> gives 2, 1, 2; with a capacity of at least 4, pushing 1, 2, 3 and then
  \<^verbatim>\<open>swap\<close> gives 1, 3, 2, \<^verbatim>\<open>rot\<close> gives 2, 3, 1 and \<^verbatim>\<open>nip\<close> gives 1, 3
  (bottom first, top last).
\<close>

theorem rpn_table_amended:
  assumes "well_formed st" "size_stk (snd st) = 0"
  shows "(3 \<le> capacity (snd st) \<longrightarrow>
            (\<exists>st'. and_then (push_all [1, 2] st) (\<lambda>u. dup) = Return () st' \<and>
                   elements st' = [1, 2, 2 :: int]) \<and>
            (\<exists>st'. and_then (push_all [1, 2] st) (\<lambda>u. over) = Return () st' \<and>
                   elements st' = [1, 2, 1]) \<and>
            (\<exists>st'. and_then (push_all [1, 2] st) (\<lambda>u. tuck) = Return () st' \<and>
                   elements st' = [2, 1, 2])) \<and>
         (4 \<le> capacity (snd st) \<longrightarrow>
            (\<exists>st'. and_then (push_all [1, 2, 3] st) (\<lambda>u. swap) = Return () st' \<and>
                   elements st' = [1, 3, 2]) \<and>
            (\<exists>st'. and_then (push_all [1, 2, 3] st) (\<lambda>u. rot) = Return () st' \<and>
                   elements st' = [2, 3, 1]) \<and>
            (\<exists>st'. and_then (push_all [1, 2, 3] st) (\<lambda>u. nip) = Return () st' \<and>
                   elements st' = [1, 3]))"
  using dup_row[OF assms, of 1 2] over_row[OF assms, of 1 2] tuck_row[OF assms, of 1 2]
    swap_row[OF assms, of 1 2 3] rot_row[OF assms, of 1 2 3] nip_row[OF assms, of 1 2 3]
  by blast

text \<open>C7, witness: the rows of \<^verbatim>\<open>tuck\<close> and of \<^verbatim>\<open>swap\<close> on \<^verbatim>\<open>Stack<T> s(4)\<close>.\<close>

theorem rpn_table_amended_witness:
  "well_formed empty_stack_4 \<and> size_stk (snd empty_stack_4) = 0 \<and>
   3 \<le> capacity (snd empty_stack_4) \<and> 4 \<le> capacity (snd empty_stack_4) \<and>
   (\<exists>st'. and_then (push_all [1, 2] empty_stack_4) (\<lambda>u. tuck) = Return () st' \<and>
          elements st' = [2, 1, 2]) \<and>
   (\<exists>st'. and_then (push_all [1, 2, 3] empty_stack_4) (\<lambda>u. swap) = Return () st' \<and>
          elements st' = [1, 3, 2])"
  using rpn_table_amended[OF well_formed_empty_stack_4 size_capacity_empty_stack_4(1)]
  by (simp add: well_formed_empty_stack_4 size_capacity_empty_stack_4)

section \<open>Failures of the operations\<close>

lemma raises_iff: "raises out e = (\<exists>s. out = Throw e s)"
  by (cases out) (auto simp: raises_def)

lemma atomic_iff: "atomic out st = (\<forall>e s. out = Throw e s \<longrightarrow> s = st)"
  by (cases out) (auto simp: atomic_def)

lemma roll_Return_D:
  "roll n st = Return u st' \<Longrightarrow> n < size_stk (snd st) \<and> size_stk (snd st) < capacity (snd st)"
  by (auto simp: roll_def and_then_Return_iff dest: pick_Return_D)

lemma push_failure:
  assumes "well_formed st"
  shows "raises (push x st) OverflowError = (size_stk (snd st) = capacity (snd st))"
    and "atomic (push x st) st"
  using well_formed_size_le[OF assms]
  by (auto simp: raises_iff atomic_iff push_def split: option.splits)

lemma pop_failure:
  shows "raises (pop st) UnderflowError = (size_stk (snd st) = 0)"
    and "atomic (pop st) st"
  by (auto simp: raises_iff atomic_iff pop_def Let_def split: option.splits)

lemma drop_stk_failure:
  shows "raises (drop_stk st) UnderflowError = (size_stk (snd st) = 0)"
    and "atomic (drop_stk st) st"
  by (auto simp: raises_iff atomic_iff drop_stk_def and_then_Throw_iff pop_def Let_def
      split: option.splits)

lemma peek_failure:
  assumes "well_formed st"
  shows "raises (peek st) UnderflowError = (size_stk (snd st) = 0)"
    and "atomic (peek st) st"
proof -
  show "raises (peek st) UnderflowError = (size_stk (snd st) = 0)"
  proof (cases "size_stk (snd st) = 0")
    case True
    then show ?thesis by (simp add: raises_def peek_def pop_def)
  next
    case False
    with peek_spec[OF assms] show ?thesis by (simp add: raises_def)
  qed
  show "atomic (peek st) st"
  proof (cases "size_stk (snd st) = 0")
    case True
    then show ?thesis by (simp add: atomic_def peek_def pop_def)
  next
    case False
    with peek_spec[OF assms] show ?thesis by (simp add: atomic_def)
  qed
qed

lemma pick_failure:
  shows "raises (pick n st) UnderflowError = (size_stk (snd st) \<le> n)"
    and "atomic (pick n st) st"
  using pick_underflow[of st n]
  by (auto simp: raises_iff atomic_iff dest: pick_Throw_D)

lemma roll_failure:
  assumes "well_formed st"
  shows "raises (roll n st) UnderflowError = (size_stk (snd st) \<le> n)"
    and "atomic (roll n st) st"
  using roll_underflow[of st n] roll_Throw_D[OF assms, of n]
  by (auto simp: raises_iff atomic_iff)

lemma nip_Throw_D:
  assumes "well_formed st" "nip st = Throw e st'"
  shows "st' = st \<and>
     (e = UnderflowError \<and> size_stk (snd st) \<le> 1 \<or>
      e = OverflowError \<and> 1 < size_stk (snd st) \<and> capacity (snd st) \<le> size_stk (snd st))"
proof (cases "swap st = Throw e st'")
  case True
  then show ?thesis using roll_Throw_D[OF assms(1), of 1 e st'] by (simp add: swap_def)
next
  case False
  with assms(2) obtain u st1 where
    s: "swap st = Return u st1" and d: "drop_stk st1 = Throw e st'"
    by (auto simp: nip_def and_then_Throw_iff)
  from roll_Return_D[of 1 st u st1] s
  have "2 \<le> size_stk (snd st)" "size_stk (snd st) < capacity (snd st)" by (simp_all add: swap_def)
  from swap_spec[OF assms(1) this] s have "size_stk (snd st1) = size_stk (snd st)" by auto
  with drop_stk_Throw_D[OF d] \<open>2 \<le> size_stk (snd st)\<close> show ?thesis by simp
qed

lemma tuck_Throw_D:
  assumes "well_formed st" "tuck st = Throw e st'"
  shows "st' = st \<and>
     (e = UnderflowError \<and> size_stk (snd st) \<le> 1 \<or>
      e = OverflowError \<and> 1 < size_stk (snd st) \<and> capacity (snd st) \<le> size_stk (snd st))"
proof (cases "swap st = Throw e st'")
  case True
  then show ?thesis using roll_Throw_D[OF assms(1), of 1 e st'] by (simp add: swap_def)
next
  case False
  with assms(2) obtain u st1 where
    s: "swap st = Return u st1" and d: "over st1 = Throw e st'"
    by (auto simp: tuck_def and_then_Throw_iff)
  from roll_Return_D[of 1 st u st1] s
  have b: "2 \<le> size_stk (snd st)" "size_stk (snd st) < capacity (snd st)" by (simp_all add: swap_def)
  from swap_spec[OF assms(1) b] s
  have "size_stk (snd st1) = size_stk (snd st)" "capacity (snd st1) = capacity (snd st)" by auto
  with pick_Throw_D[of 1 st1 e st'] d b show ?thesis by (simp add: over_def)
qed

lemma nip_failure:
  assumes "well_formed st"
  shows "raises (nip st) UnderflowError = (size_stk (snd st) \<le> 1)"
    and "atomic (nip st) st"
proof -
  have "nip st = Throw UnderflowError st" if "size_stk (snd st) \<le> 1"
    using that by (simp add: nip_def swap_def roll_underflow)
  then show "raises (nip st) UnderflowError = (size_stk (snd st) \<le> 1)"
    using nip_Throw_D[OF assms] by (auto simp: raises_iff)
  show "atomic (nip st) st"
    using nip_Throw_D[OF assms] by (auto simp: atomic_iff)
qed

lemma tuck_failure:
  assumes "well_formed st"
  shows "raises (tuck st) UnderflowError = (size_stk (snd st) \<le> 1)"
    and "atomic (tuck st) st"
proof -
  have "tuck st = Throw UnderflowError st" if "size_stk (snd st) \<le> 1"
    using that by (simp add: tuck_def swap_def roll_underflow)
  then show "raises (tuck st) UnderflowError = (size_stk (snd st) \<le> 1)"
    using tuck_Throw_D[OF assms] by (auto simp: raises_iff)
  show "atomic (tuck st) st"
    using tuck_Throw_D[OF assms] by (auto simp: atomic_iff)
qed

text \<open>
  C3. On a well-formed stack: \<^verbatim>\<open>push\<close> raises \<^verbatim>\<open>OverflowError\<close> exactly when the
  size equals the capacity; \<^verbatim>\<open>pop\<close> and \<^verbatim>\<open>peek\<close> raise \<^verbatim>\<open>UnderflowError\<close> exactly
  when the size is 0; \<^verbatim>\<open>pick(n)\<close> and \<^verbatim>\<open>roll(n)\<close> raise it exactly when the size is
  at most \<open>n\<close>, and \<^verbatim>\<open>dup\<close>, \<^verbatim>\<open>drop\<close>, \<^verbatim>\<open>swap\<close>, \<^verbatim>\<open>over\<close>, \<^verbatim>\<open>rot\<close>, \<^verbatim>\<open>nip\<close>,
  \<^verbatim>\<open>tuck\<close> exactly when the size is at most the depth they need (0, 0, 1, 1, 2, 1,
  1); so an unmet requirement is always signalled. Whenever one of these
  operations throws, whatever the error, the state at the throw is the state
  before the call: nothing has been written.
\<close>

theorem errors_exhaustive_and_atomic:
  assumes "well_formed st"
  shows "raises (push x st) OverflowError = (size_stk (snd st) = capacity (snd st)) \<and>
         raises (pop st) UnderflowError = (size_stk (snd st) = 0) \<and>
         raises (peek st) UnderflowError = (size_stk (snd st) = 0) \<and>
         raises (pick n st) UnderflowError = (size_stk (snd st) \<le> n) \<and>
         raises (roll n st) UnderflowError = (size_stk (snd st) \<le> n) \<and>
         raises (dup st) UnderflowError = (size_stk (snd st) \<le> 0) \<and>
         raises (drop_stk st) UnderflowError = (size_stk (snd st) = 0) \<and>
         raises (swap st) UnderflowError = (size_stk (snd st) \<le> 1) \<and>
         raises (over st) UnderflowError = (size_stk (snd st) \<le> 1) \<and>
         raises (rot st) UnderflowError = (size_stk (snd st) \<le> 2) \<and>
         raises (nip st) UnderflowError = (size_stk (snd st) \<le> 1) \<and>
         raises (tuck st) UnderflowError = (size_stk (snd st) \<le> 1) \<and>
         atomic (push x st) st \<and> atomic (pop st) st \<and> atomic (peek st) st \<and>
         atomic (pick n st) st \<and> atomic (roll n st) st \<and> atomic (dup st) st \<and>
         atomic (drop_stk st) st \<and> atomic (swap st) st \<and> atomic (over st) st \<and>
         atomic (rot st) st \<and> atomic (nip st) st \<and> atomic (tuck st) st"
  unfolding dup_def swap_def over_def rot_def
  by (intro conjI push_failure[OF assms] pop_failure peek_failure[OF assms] pick_failure
      roll_failure[OF assms] drop_stk_failure nip_failure[OF assms] tuck_failure[OF assms])

text \<open>C3, witness: the full stack of two elements.\<close>

theorem errors_exhaustive_and_atomic_witness:
  "well_formed full_stack \<and>
   raises (push 9 full_stack) OverflowError \<and> atomic (push 9 full_stack) full_stack \<and>
   \<not> raises (pop full_stack) UnderflowError \<and>
   raises (rot full_stack) UnderflowError \<and> atomic (rot full_stack) full_stack \<and>
   \<not> raises (swap full_stack) UnderflowError \<and> atomic (swap full_stack) full_stack"
  using errors_exhaustive_and_atomic[OF well_formed_full_stack, of 9 0]
  by (simp add: well_formed_full_stack size_capacity_full_stack)

section \<open>Storage management\<close>

lemma Stack_new_spec:
  assumes "n < 2 ^ 32"
  shows "\<exists>st. Stack_new szT n h = Return () st \<and> well_formed st \<and> elements st = [] \<and>
           size_stk (snd st) = 0 \<and> capacity (snd st) = n"
proof -
  let ?st = "(h @ [Some (replicate n None)], \<lparr>m_base = Some (length h), m_pointer = 0, m_capacity = n\<rparr>)"
  have 1: "Stack_new szT n h = Return () ?st"
    by (simp add: Stack_new_def allocate_def new_array_def size_stk_def to_unsigned_def)
  have 2: "well_formed ?st"
    using assms by (intro well_formedI[where buf = "replicate n None"]) simp_all
  have 3: "elements ?st = []"
    by (simp add: elements_def buffer_def live_def size_stk_def to_unsigned_def)
  show ?thesis using 1 2 3 by (simp add: size_stk_def to_unsigned_def capacity_def)
qed

lemma copy_bytes_whole:
  "0 < szT \<Longrightarrow> copy_bytes szT dst src (m * szT) = take m src @ drop m dst"
  by (simp add: copy_bytes_def)

text \<open>
  The \<^verbatim>\<open>allocate\<close> of the second copy of the class keeps the first
  \<open>min capacity n\<close> slots, whatever \<^verbatim>\<open>sizeof(T)\<close> is.
\<close>

lemma allocate_2_preserves:
  assumes "well_formed st" "0 < szT"
  shows "\<exists>st' buf buf'. allocate_2 szT n st = Return () st' \<and>
           buffer st = Some buf \<and> buffer st' = Some buf' \<and> length buf' = n \<and>
           take (min (capacity (snd st)) n) buf' = take (min (capacity (snd st)) n) buf \<and>
           capacity (snd st') = n \<and> m_pointer (snd st') = m_pointer (snd st)"
proof -
  from assms(1) obtain h a buf p c where
    st: "st = (h, \<lparr>m_base = Some a, m_pointer = p, m_capacity = c\<rparr>)" and
    h: "a < length h" "h ! a = Some buf" and len: "length buf = c" and pc: "p \<le> c" "c < 2 ^ 32"
    by (rule well_formedE) blast
  define m where "m = (if c > n then n else c)"
  then have mle: "m \<le> c" "m \<le> n" "min c n = m" by auto
  let ?buf' = "take m buf @ drop m (replicate n None)"
  let ?h1 = "h @ [Some (replicate n None)]"
  let ?st' = "(?h1[length h := Some ?buf', a := None],
               \<lparr>m_base = Some (length h), m_pointer = p, m_capacity = n\<rparr>)"
  have p64: "to_size_t p = p" using pc by (simp add: to_size_t_def)
  have mc: "memcpy szT ?h1 (length h) a (m * szT) = Some (?h1[length h := Some ?buf'])"
    using h len assms(2) mle by (simp add: memcpy_def live_def nth_append copy_bytes_whole)
  have d: "delete_array a (?h1[length h := Some ?buf']) = Some (?h1[length h := Some ?buf', a := None])"
    using h by (simp add: delete_array_def live_def nth_append nth_list_update)
  have 1: "allocate_2 szT n st = Return () ?st'"
  proof (cases "n < c")
    case True
    then have "m = n" by (simp add: m_def)
    with True mc d show ?thesis by (simp add: allocate_2_def new_array_def st p64)
  next
    case False
    then have "m = c" by (simp add: m_def)
    with False mc d show ?thesis by (simp add: allocate_2_def new_array_def st p64)
  qed
  have 2: "buffer st = Some buf" using st h by (simp add: buffer_def live_def)
  have 3: "buffer ?st' = Some ?buf'" using h by (simp add: buffer_def live_def nth_list_update)
  have 4: "length ?buf' = n" using len mle by simp
  have 5: "take (min c n) ?buf' = take (min c n) buf" using len mle by simp
  show ?thesis using 1 2 3 4 5 st by (simp add: capacity_def)
qed

text \<open>
  The \<^verbatim>\<open>allocate\<close> of stack.hh keeps them when the capacity does not shrink, or
  when \<^verbatim>\<open>sizeof(T)\<close> is 1.
\<close>

lemma allocate_preserves:
  assumes "well_formed st" "0 < szT" "capacity (snd st) \<le> n \<or> szT = 1"
  shows "\<exists>st' buf buf'. allocate szT n st = Return () st' \<and>
           buffer st = Some buf \<and> buffer st' = Some buf' \<and> length buf' = n \<and>
           take (min (capacity (snd st)) n) buf' = take (min (capacity (snd st)) n) buf \<and>
           capacity (snd st') = n \<and> m_pointer (snd st') = m_pointer (snd st)"
proof -
  from assms(1) obtain h a buf p c where
    st: "st = (h, \<lparr>m_base = Some a, m_pointer = p, m_capacity = c\<rparr>)" and
    h: "a < length h" "h ! a = Some buf" and len: "length buf = c" and pc: "p \<le> c" "c < 2 ^ 32"
    by (rule well_formedE) blast
  define m where "m = (if c > n then n else c)"
  then have mle: "m \<le> c" "m \<le> n" "min c n = m" by auto
  let ?buf' = "take m buf @ drop m (replicate n None)"
  let ?h1 = "h @ [Some (replicate n None)]"
  let ?st' = "(?h1[length h := Some ?buf', a := None],
               \<lparr>m_base = Some (length h), m_pointer = p, m_capacity = n\<rparr>)"
  from pc have p32: "p < 2 ^ 32" by simp
  have mc: "memcpy szT ?h1 (length h) a (m * szT) = Some (?h1[length h := Some ?buf'])"
    using h len assms(2) mle by (simp add: memcpy_def live_def nth_append copy_bytes_whole)
  have d: "delete_array a (?h1[length h := Some ?buf']) = Some (?h1[length h := Some ?buf', a := None])"
    using h by (simp add: delete_array_def live_def nth_append nth_list_update)
  have 1: "allocate szT n st = Return () ?st'"
  proof (cases "n < c")
    case True
    then have "m = n" by (simp add: m_def)
    moreover from True assms(3) st have "szT = 1" by (simp add: capacity_def)
    ultimately show ?thesis
      using True mc d p32 by (simp add: allocate_def new_array_def st size_stk_simp)
  next
    case False
    then have "m = c" by (simp add: m_def)
    with False mc d p32 show ?thesis by (simp add: allocate_def new_array_def st size_stk_simp)
  qed
  have 2: "buffer st = Some buf" using st h by (simp add: buffer_def live_def)
  have 3: "buffer ?st' = Some ?buf'" using h by (simp add: buffer_def live_def nth_list_update)
  have 4: "length ?buf' = n" using len mle by simp
  have 5: "take (min c n) ?buf' = take (min c n) buf" using len mle by simp
  show ?thesis using 1 2 3 4 5 st by (simp add: capacity_def)
qed

text \<open>
  \<^verbatim>\<open>copy()\<close> of a well-formed stack returns a well-formed stack on an array of its
  own, with the capacity, the size and the elements of the original, and leaves
  the original as it was.
\<close>

lemma copy_spec:
  assumes "well_formed (h, this)" "0 < szT"
  shows "\<exists>cp h'. copy szT h this = Return cp h' \<and> well_formed (h', cp) \<and>
           elements (h', cp) = elements (h, this) \<and>
           capacity cp = capacity this \<and> size_stk cp = size_stk this \<and>
           m_base cp \<noteq> m_base this \<and> well_formed (h', this) \<and>
           buffer (h', this) = buffer (h, this)"
proof -
  from assms(1) obtain a buf p c where
    t: "this = \<lparr>m_base = Some a, m_pointer = p, m_capacity = c\<rparr>" and
    h: "a < length h" "h ! a = Some buf" and len: "length buf = c" and pc: "p \<le> c" "c < 2 ^ 32" and
    ini: "\<forall>i<p. \<exists>v. buf ! i = Some v"
    by (rule well_formedE) auto
  from pc have p32: "p < 2 ^ 32" by simp
  let ?h1 = "h @ [Some (replicate c None)]"
  let ?h' = "h @ [Some buf]"
  let ?cp = "\<lparr>m_base = Some (length h), m_pointer = p, m_capacity = c\<rparr>"
  have n: "Stack_new szT c h =
             Return () (?h1, \<lparr>m_base = Some (length h), m_pointer = 0, m_capacity = c\<rparr>)"
    by (simp add: Stack_new_def allocate_def new_array_def size_stk_def to_unsigned_def)
  have m: "memcpy szT ?h1 (length h) a (c * szT) = Some ?h'"
    using h len assms(2) by (simp add: memcpy_def live_def nth_append copy_bytes_whole)
  have 1: "copy szT h this = Return ?cp ?h'"
    using p32 by (simp add: copy_def t capacity_def n m size_stk_simp)
  have 2: "well_formed (?h', ?cp)"
    using len pc ini by (intro well_formedI[where buf = buf]) auto
  have 3: "well_formed (?h', this)"
    unfolding t using h len pc ini by (intro well_formedI[where buf = buf]) (auto simp: nth_append)
  have 4: "elements (?h', ?cp) = elements (h, this)"
    using h p32 by (simp add: t elements_simp)
  have 5: "buffer (?h', this) = buffer (h, this)"
    using h by (simp add: t buffer_def live_def nth_append)
  from h have 6: "m_base ?cp \<noteq> m_base this" by (simp add: t)
  show ?thesis
    using 1 2 3 4 5 6 p32 by (simp add: t capacity_def size_stk_simp)
qed

text \<open>
  Whenever \<^verbatim>\<open>operator =\<close> returns, the object is left with the array of the local
  \<^verbatim>\<open>copy\<close>, which the destructor of \<^verbatim>\<open>copy\<close> has released.
\<close>

lemma operator_assign_dangling:
  assumes "operator_assign szT st stack = Return u st'"
  shows "buffer st' = None"
proof -
  from assms obtain h1 cp h2 h3 where
    c: "copy szT h1 stack = Return cp h2" and d: "destroy (h2, cp) = Some h3" and
    st': "st' = (h3, (snd st)\<lparr>m_base := m_base cp, m_pointer := m_pointer cp,
                               m_capacity := m_capacity cp\<rparr>)"
    by (auto simp: operator_assign_def Let_def split: option.splits outcome.splits)
  from c obtain b where b: "m_base cp = Some b"
    by (auto simp: copy_def split: outcome.splits option.splits)
  with d have "h3 = h2[b := None]" "b < length h2"
    by (auto simp: destroy_def delete_array_def live_def split: option.splits if_splits)
  with st' b show ?thesis by (simp add: buffer_def live_def)
qed

lemma allocate_full_stack_1: "allocate 1 1 full_stack = Return () shrunk_stack"
  by (simp add: allocate_def new_array_def full_stack_def shrunk_stack_def size_stk_def
      to_unsigned_def memcpy_def live_def copy_bytes_def delete_array_def)

lemma allocate_full_stack_3: "allocate 4 2 full_stack_3 = Return () torn_stack"
  by (simp add: allocate_def new_array_def full_stack_3_def torn_stack_def size_stk_def
      to_unsigned_def memcpy_def live_def copy_bytes_def delete_array_def replicate_2)

lemma size_capacity_shrunk_stack:
  "size_stk (snd shrunk_stack) = 2" "capacity (snd shrunk_stack) = 1"
  by (simp_all add: shrunk_stack_def size_stk_def to_unsigned_def capacity_def)

lemma pop_shrunk_stack: "pop shrunk_stack = Undefined"
  by (simp add: shrunk_stack_def size_stk_def to_unsigned_def pop_def deref_def buffer_def live_def)

lemma buffer_full_stack_3: "buffer full_stack_3 = Some [Some 1, Some 2, Some 3]"
  by (simp add: full_stack_3_def buffer_def live_def)

lemma buffer_capacity_torn_stack:
  "buffer torn_stack = Some [None, None]" "capacity (snd torn_stack) = 2"
  by (simp_all add: torn_stack_def buffer_def live_def capacity_def)

text \<open>
  C4, the failing input. \<^verbatim>\<open>Stack<T> s(2); s.push(1); s.push(2); s.allocate(1);\<close>
  (here with \<^verbatim>\<open>sizeof(T)\<close> 1): the state before \<^verbatim>\<open>allocate\<close> is well formed;
  after it the size is 2 and the capacity is 1, and a \<^verbatim>\<open>pop\<close> reads outside the
  array. C4 states that every operation keeps the size within the capacity.
\<close>

theorem allocate_shrink_exceeds_capacity:
  "well_formed full_stack \<and> allocate 1 1 full_stack = Return () shrunk_stack \<and>
   size_stk (snd shrunk_stack) = 2 \<and> capacity (snd shrunk_stack) = 1 \<and>
   pop shrunk_stack = Undefined"
  by (intro conjI well_formed_full_stack allocate_full_stack_1 size_capacity_shrunk_stack
      pop_shrunk_stack)

text \<open>
  C5, the failing input. \<^verbatim>\<open>Stack<T> s(3); s.push(1); s.push(2); s.push(3);
  s.allocate(2);\<close> for a \<^verbatim>\<open>T\<close> of four bytes: the capacity shrinks, so the length
  of the copy is \<^verbatim>\<open>size\<close>, 2 bytes, not \<^verbatim>\<open>size * sizeof(T)\<close>. Slot 0 of the new
  array receives half of the old slot 0 and slot 1 receives nothing; neither
  holds the element the old array held there. C5 states that the first
  \<open>min 3 2 = 2\<close> slots are preserved.
\<close>

theorem allocate_shrink_tears_slot:
  "well_formed full_stack_3 \<and>
   buffer full_stack_3 = Some [Some 1, Some 2, Some 3] \<and> capacity (snd full_stack_3) = 3 \<and>
   allocate 4 2 full_stack_3 = Return () torn_stack \<and>
   capacity (snd torn_stack) = 2 \<and> buffer torn_stack = Some [None, None]"
  by (intro conjI well_formed_full_stack_3 buffer_full_stack_3 size_capacity_full_stack_3
      allocate_full_stack_3 buffer_capacity_torn_stack)

lemma self_assignment_undefined:
  assumes "well_formed st"
  shows "operator_assign szT st (snd st) = Undefined"
proof -
  from assms obtain h a buf p c where
    st: "st = (h, \<lparr>m_base = Some a, m_pointer = p, m_capacity = c\<rparr>)" and
    h: "a < length h" "h ! a = Some buf"
    by (rule well_formedE) blast
  let ?h1 = "h[a := None]"
  have d: "delete_array a h = Some ?h1"
    using h by (simp add: delete_array_def live_def)
  have n: "Stack_new szT c ?h1 =
             Return () (?h1 @ [Some (replicate c None)],
                        \<lparr>m_base = Some (length h), m_pointer = 0, m_capacity = c\<rparr>)"
    by (simp add: Stack_new_def allocate_def new_array_def size_stk_def to_unsigned_def)
  have m: "memcpy szT (?h1 @ [Some (replicate c None)]) (length h) a (c * szT) = None"
    using h by (simp add: memcpy_def live_def nth_append)
  have "copy szT ?h1 \<lparr>m_base = Some a, m_pointer = p, m_capacity = c\<rparr> = Undefined"
    by (simp add: copy_def capacity_def n m)
  then show ?thesis
    by (simp add: operator_assign_def st d)
qed

text \<open>
  C9, the failing input. \<^verbatim>\<open>s = s\<close> on the full stack of two elements:
  \<^verbatim>\<open>operator =\<close> releases \<^verbatim>\<open>_base\<close> first and then has \<^verbatim>\<open>copy()\<close> read from it.
  C9 states that the stack is as before.
\<close>

theorem self_assignment_reads_released_buffer:
  "well_formed full_stack \<and> operator_assign 4 full_stack (snd full_stack) = Undefined"
  using self_assignment_undefined[OF well_formed_full_stack] well_formed_full_stack by simp

end
